theory Spec2Isabelle
  imports Complex_Main
begin

section \<open>Numeric conventions\<close>

text \<open>
  The program computes with Python integers (the phase counter) and with numpy double
  precision numbers (powers, crossings, angles). Integers are modelled by \<open>int\<close>; the
  floating-point values are idealised as \<open>real\<close> and \<open>complex\<close>, so rounding, infinities
  and NaN are outside the model: where numpy yields \<open>inf\<close> or \<open>nan\<close> without raising (a
  division by zero, the logarithm of zero, the mean of an empty block), the HOL operation
  yields some real number, and no theorem below depends on which. Exceptions are values of
  \<open>py_error\<close>; \<open>RadioError\<close> stands for whatever the radio driver raises.
\<close>

datatype py_error = IndexError | ValueError | RadioError

subsection \<open>The numpy functions used by the program\<close>

text \<open>\<open>np.argmax\<close>: the index of the first occurrence of the maximum.\<close>

fun argmax :: "real list \<Rightarrow> nat" where
  "argmax [] = 0"
| "argmax [x] = 0"
| "argmax (x # xs) = (let j = argmax xs in if x < xs ! j then Suc j else 0)"

text \<open>
  \<open>np.interp(x, xp, fp)\<close>, following numpy's compiled implementation: a key above the
  last abscissa yields the last ordinate, a key below the first abscissa yields the first
  ordinate, and otherwise the segment is located by a linear search from index 1 (the path
  numpy takes for at most four abscissae; every call of the program passes two). numpy does
  not check that \<open>xp\<close> is increasing. An empty \<open>xp\<close> or lists of different lengths raise
  ValueError.
\<close>

function linear_search :: "real \<Rightarrow> real list \<Rightarrow> nat \<Rightarrow> nat" where
  "linear_search key arr i =
     (if i < length arr \<and> arr ! i \<le> key then linear_search key arr (Suc i) else i - 1)"
  by pat_completeness auto
termination
  by (relation "measure (\<lambda>(key, arr, i). length arr - i)") auto

declare linear_search.simps [simp del]

definition np_interp :: "real \<Rightarrow> real list \<Rightarrow> real list \<Rightarrow> py_error + real" where
  "np_interp x xp fp =
     (if xp = [] \<or> length xp \<noteq> length fp then Inl ValueError
      else if xp ! (length xp - 1) < x then Inr (fp ! (length xp - 1))
      else if x < xp ! 0 then Inr (fp ! 0)
      else let j = linear_search x xp 1 in
        if j = length xp - 1 then Inr (fp ! j)
        else if xp ! j = x then Inr (fp ! j)
        else let slope = (fp ! (j + 1) - fp ! j) / (xp ! (j + 1) - xp ! j)
             in Inr (slope * (x - xp ! j) + fp ! j))"

definition deg2rad :: "real \<Rightarrow> real" where
  "deg2rad x = x * (pi / 180)"

definition degrees :: "real \<Rightarrow> real" where
  "degrees x = x * (180 / pi)"

definition clip :: "real \<Rightarrow> real \<Rightarrow> real \<Rightarrow> real" where
  "clip x lo hi = min (max x lo) hi"

section \<open>Half-power beam width: \<open>annotate_results\<close>\<close>

text \<open>
  The spatial angle of a phase offset, as \<open>annotate_results\<close> computes it for the left
  and for the right crossing: the sine is clipped to \<open>[-1, 1]\<close> before the arcsine.
\<close>

definition phase_to_angle :: "real \<Rightarrow> real \<Rightarrow> real \<Rightarrow> real" where
  "phase_to_angle phi lam d =
     degrees (arcsin (clip ((deg2rad phi * lam) / (2 * pi * d)) (- 1) 1))"

text \<open>What \<open>annotate_results\<close> draws: the values behind its five graphics items.\<close>

record beam_summary =
  peak_phi :: real
  peak_db :: real
  half_db :: real
  left :: real
  right :: real
  hpbw_phase :: real
  theta_l :: real
  theta_r :: real
  hpbw_theta :: real
  min_db :: real

text \<open>
  The loop \<open>for i in range(idx_max - 1, -1, -1)\<close>: \<open>scan_left amps half n\<close> visits
  \<open>n - 1, \<dots>, 0\<close> and stops at the first index whose amplitude is below \<open>half\<close>.
\<close>

fun scan_left :: "real list \<Rightarrow> real \<Rightarrow> nat \<Rightarrow> nat option" where
  "scan_left amps half 0 = None"
| "scan_left amps half (Suc i) =
     (if amps ! i < half then Some i else scan_left amps half i)"

text \<open>The loop \<open>for i in range(idx_max + 1, len(amps))\<close>, started at \<open>i\<close>.\<close>

function scan_right :: "real list \<Rightarrow> real \<Rightarrow> nat \<Rightarrow> nat option" where
  "scan_right amps half i =
     (if length amps \<le> i then None
      else if amps ! i < half then Some i
      else scan_right amps half (Suc i))"
  by pat_completeness auto
termination
  by (relation "measure (\<lambda>(amps, half, i). length amps - i)") auto

declare scan_right.simps [simp del]

definition left_crossing :: "real list \<Rightarrow> real list \<Rightarrow> real \<Rightarrow> nat \<Rightarrow> py_error + real" where
  "left_crossing phases amps half idx_max =
     (case scan_left amps half idx_max of
        None \<Rightarrow> Inr (phases ! 0)
      | Some i \<Rightarrow> np_interp half [amps ! i, amps ! (i + 1)] [phases ! i, phases ! (i + 1)])"

definition right_crossing :: "real list \<Rightarrow> real list \<Rightarrow> real \<Rightarrow> nat \<Rightarrow> py_error + real" where
  "right_crossing phases amps half idx_max =
     (case scan_right amps half (idx_max + 1) of
        None \<Rightarrow> Inr (last phases)
      | Some i \<Rightarrow>
          if length phases \<le> i then Inl IndexError
          else np_interp half [amps ! (i - 1), amps ! i] [phases ! (i - 1), phases ! i])"

text \<open>
  The computation of \<open>annotate_results\<close> up to the point where it touches the plot:
  \<open>Inr None\<close> is the early return on fewer than five amplitudes, \<open>Inl IndexError\<close> is
  numpy's exception when \<open>phases\<close> is too short for an index that is read.
\<close>

definition hpbw_estimate ::
    "real list \<Rightarrow> real list \<Rightarrow> real \<Rightarrow> real \<Rightarrow> py_error + beam_summary option" where
  "hpbw_estimate phases amps lam d =
     (if length amps < 5 then Inr None
      else let idx_max = argmax amps; pk_db = amps ! idx_max in
        if length phases \<le> idx_max then Inl IndexError
        else let pk_phi = phases ! idx_max; hf_db = pk_db - 3 in
          case left_crossing phases amps hf_db idx_max of
            Inl e \<Rightarrow> Inl e
          | Inr l \<Rightarrow>
             (case right_crossing phases amps hf_db idx_max of
                Inl e \<Rightarrow> Inl e
              | Inr r \<Rightarrow>
                  let th_l = phase_to_angle l lam d; th_r = phase_to_angle r lam d
                  in Inr (Some \<lparr>peak_phi = pk_phi, peak_db = pk_db, half_db = hf_db,
                                left = l, right = r, hpbw_phase = r - l,
                                theta_l = th_l, theta_r = th_r, hpbw_theta = th_r - th_l,
                                min_db = Min (set amps)\<rparr>)))"

section \<open>Configuration and radio\<close>

text \<open>
  The user parameters of \<open>main\<close> (\<open>N\<close> is \<open>cap_N\<close> here) and the carrier frequency
  \<open>tx_lo\<close> the setup writes to the transmitter. \<open>PAD_DB\<close> only places a label.
\<close>

record config =
  samp_rate :: real
  f_tone :: real
  cap_N :: nat
  phase_step :: int
  update_interval :: nat
  integration_win :: nat
  spacing_ratio :: real
  tx_lo :: real

definition default_config :: config where
  "default_config =
     \<lparr>samp_rate = 2000000, f_tone = 500000, cap_N = 4096, phase_step = 2,
      update_interval = 40, integration_win = 10, spacing_ratio = 1 / 2,
      tx_lo = 2400000000\<rparr>"

definition lam :: "config \<Rightarrow> real" where
  "lam cfg = 300000000 / tx_lo cfg"

definition d :: "config \<Rightarrow> real" where
  "d cfg = spacing_ratio cfg * lam cfg"

definition base_waveform :: "config \<Rightarrow> complex list" where
  "base_waveform cfg =
     map (\<lambda>n. of_real (2 ^ 14 * (1 / 2)) * cis (2 * pi * f_tone cfg * (real n / samp_rate cfg)))
       [0 ..< cap_N cfg]"

text \<open>
  The two devices. What the hardware will do is an input of the model: \<open>tx_fails k\<close> says
  whether the \<open>k\<close>-th call of \<open>sdr_tx.tx\<close> raises, \<open>rx_feed k\<close> is the block returned by
  the \<open>k\<close>-th call of \<open>sdr_rx.rx\<close> (\<open>None\<close>: the call raises). \<open>tx_buffer\<close> is the cyclic
  buffer being transmitted.
\<close>

record radio =
  tx_fails :: "nat \<Rightarrow> bool"
  rx_feed :: "nat \<Rightarrow> complex list option"
  tx_calls :: nat
  rx_calls :: nat
  tx_buffer :: "complex list list option"

definition tx_destroy_buffer :: "radio \<Rightarrow> radio" where
  "tx_destroy_buffer r = r\<lparr>tx_buffer := None\<rparr>"

definition tx :: "complex list list \<Rightarrow> radio \<Rightarrow> (py_error \<times> radio) + radio" where
  "tx bufs r =
     (let r' = r\<lparr>tx_calls := Suc (tx_calls r)\<rparr>
      in if tx_fails r (tx_calls r) then Inl (RadioError, r')
         else Inr (r'\<lparr>tx_buffer := Some bufs\<rparr>))"

definition rx :: "radio \<Rightarrow> (py_error \<times> radio) + (complex list \<times> radio)" where
  "rx r =
     (let r' = r\<lparr>rx_calls := Suc (rx_calls r)\<rparr>
      in case rx_feed r (rx_calls r) of
           None \<Rightarrow> Inl (RadioError, r')
         | Some block \<Rightarrow> Inr (block, r'))"

section \<open>One step of the sweep: \<open>update\<close>\<close>

text \<open>The loop \<open>for _ in range(20): sdr_rx.rx()\<close>, for any count.\<close>

fun flush :: "nat \<Rightarrow> radio \<Rightarrow> (py_error \<times> radio) + radio" where
  "flush 0 r = Inr r"
| "flush (Suc n) r = (case rx r of Inl e \<Rightarrow> Inl e | Inr (block, r') \<Rightarrow> flush n r')"

definition mean :: "complex list \<Rightarrow> complex" where
  "mean xs = sum_list xs / of_nat (length xs)"

text \<open>
  Lines 188 to 191: the flush, then
  \<open>samples = sdr_rx.rx() - np.mean(sdr_rx.rx())\<close> (Python evaluates the left operand
  first), then \<open>samples /= 2**11\<close>.
\<close>

definition capture :: "radio \<Rightarrow> (py_error \<times> radio) + (complex list \<times> radio)" where
  "capture r =
     (case flush 20 r of
        Inl e \<Rightarrow> Inl e
      | Inr r1 \<Rightarrow>
         (case rx r1 of
            Inl e \<Rightarrow> Inl e
          | Inr (a, r2) \<Rightarrow>
             (case rx r2 of
                Inl e \<Rightarrow> Inl e
              | Inr (b, r3) \<Rightarrow> Inr (map (\<lambda>z. (z - mean b) / 2 ^ 11) a, r3))))"

subsection \<open>Spectral analysis\<close>

definition hanning :: "nat \<Rightarrow> real list" where
  "hanning M =
     (if M = 1 then [1]
      else map (\<lambda>k. 1 / 2 + 1 / 2 * cos (pi * of_int (1 - int M + 2 * int k) / real (M - 1)))
             [0 ..< M])"

definition fft :: "complex list \<Rightarrow> complex list" where
  "fft xs =
     map (\<lambda>k. \<Sum>n < length xs. xs ! n * cis (- (2 * pi * real k * real n / real (length xs))))
       [0 ..< length xs]"

definition fftshift :: "'a list \<Rightarrow> 'a list" where
  "fftshift xs = (let m = length xs - length xs div 2 in drop m xs @ take m xs)"

definition fftfreq :: "nat \<Rightarrow> real \<Rightarrow> real list" where
  "fftfreq n dt =
     map (\<lambda>k. of_int (if k < (n - 1) div 2 + 1 then int k else int k - int n) * (1 / (real n * dt)))
       [0 ..< n]"

record spectral =
  freq :: "real list"
  mag :: "real list"
  pk_f :: real
  pwr_lin :: real

text \<open>
  Lines 194 to 203. The slice \<open>mag[max(0, idx_pk - w) : idx_pk + w + 1]\<close> stops at the
  end of the list; the subtraction on \<open>nat\<close> is the \<open>max(0, \<dots>)\<close>.
\<close>

definition analyze :: "config \<Rightarrow> complex list \<Rightarrow> spectral" where
  "analyze cfg samples =
     (let win_fn = hanning (length samples);
          fftd = map (\<lambda>z. z / of_real (sum_list win_fn))
                   (fft (map2 (\<lambda>s w. s * of_real w) samples win_fn));
          mg = map cmod (fftshift fftd);
          fr = fftshift (fftfreq (length samples) (1 / samp_rate cfg));
          idx_pk = argmax mg;
          lo = idx_pk - integration_win cfg;
          hi = idx_pk + integration_win cfg + 1
      in \<lparr>freq = fr, mag = mg, pk_f = fr ! idx_pk,
          pwr_lin = sqrt (sum_list (map (\<lambda>m. m ^ 2) (take (hi - lo) (drop lo mg))))\<rparr>)"

subsection \<open>The sweep state and the timers\<close>

datatype sweep_mode = OneShot | Continuous

datatype callback = Update | StartSweep

text \<open>
  The variables the closures of \<open>main\<close> share. \<open>graphics\<close> stands for the five plot
  handles \<open>beam_line\<close>, \<open>beam_label\<close>, \<open>max_line\<close>, \<open>max_marker\<close>, \<open>max_label\<close>, which
  are set together and cleared together. \<open>timers\<close> holds the pending
  \<open>QTimer.singleShot\<close> calls with their due times, \<open>clock\<close> the time in milliseconds.
\<close>

record state =
  cur_phase :: int
  ph_hist :: "int list"
  amp_hist :: "real list"
  mode :: sweep_mode
  graphics :: "beam_summary option"
  sdr :: radio
  clock :: nat
  timers :: "(nat \<times> callback) list"

definition singleShot :: "nat \<Rightarrow> callback \<Rightarrow> state \<Rightarrow> state" where
  "singleShot delay cb st = st\<lparr>timers := timers st @ [(clock st + delay, cb)]\<rparr>"

text \<open>
  \<open>annotate_results\<close>: nothing changes on the early return or on an exception; otherwise
  the old graphics are removed and the new ones drawn.
\<close>

definition annotate_results :: "config \<Rightarrow> state \<Rightarrow> (py_error \<times> state) + state" where
  "annotate_results cfg st =
     (case hpbw_estimate (map of_int (ph_hist st)) (amp_hist st) (lam cfg) (d cfg) of
        Inl e \<Rightarrow> Inl (e, st)
      | Inr None \<Rightarrow> Inr st
      | Inr (Some b) \<Rightarrow> Inr (st\<lparr>graphics := Some b\<rparr>))"

text \<open>
  \<open>update\<close>. An exception leaves the function at once: \<open>Inl (e, st')\<close> carries the state
  \<open>st'\<close> it leaves behind. \<open>np.fft.fft\<close> raises ValueError on an empty block.
\<close>

definition update :: "config \<Rightarrow> state \<Rightarrow> (py_error \<times> state) + state" where
  "update cfg st =
     (let r0 = tx_destroy_buffer (sdr st);
          rot = cis (deg2rad (of_int (cur_phase st)))
      in case tx [base_waveform cfg, map (\<lambda>z. z * rot) (base_waveform cfg)] r0 of
           Inl (e, r) \<Rightarrow> Inl (e, st\<lparr>sdr := r\<rparr>)
         | Inr r1 \<Rightarrow>
            (case capture r1 of
               Inl (e, r) \<Rightarrow> Inl (e, st\<lparr>sdr := r\<rparr>)
             | Inr (samples, r2) \<Rightarrow>
                 if samples = [] then Inl (ValueError, st\<lparr>sdr := r2\<rparr>)
                 else
                   let sp = analyze cfg samples;
                       st1 = st\<lparr>sdr := r2,
                                ph_hist := ph_hist st @ [cur_phase st],
                                amp_hist := amp_hist st @ [20 * log 10 (pwr_lin sp)]\<rparr>;
                       st2 = st1\<lparr>cur_phase := cur_phase st1 + phase_step cfg\<rparr>
                   in if 180 < cur_phase st2 then
                        (case annotate_results cfg st2 of
                           Inl e \<Rightarrow> Inl e
                         | Inr st3 \<Rightarrow>
                             Inr (if mode st3 = Continuous
                                  then singleShot (update_interval cfg) StartSweep st3
                                  else st3))
                      else Inr (singleShot (update_interval cfg) Update st2)))"

definition start_sweep :: "state \<Rightarrow> state" where
  "start_sweep st =
     singleShot 0 Update
       (st\<lparr>cur_phase := - 180, ph_hist := [], amp_hist := [], graphics := None\<rparr>)"

definition one_shot :: "state \<Rightarrow> state" where
  "one_shot st = start_sweep (st\<lparr>mode := OneShot\<rparr>)"

definition continuous :: "state \<Rightarrow> state" where
  "continuous st = start_sweep (st\<lparr>mode := Continuous\<rparr>)"

text \<open>
  The start of \<open>main\<close>: the unrotated tone goes out on both channels, and the sweep
  variables get their initial values.
\<close>

definition initial_state :: "radio \<Rightarrow> state" where
  "initial_state r =
     \<lparr>cur_phase = - 180, ph_hist = [], amp_hist = [], mode = OneShot,
      graphics = None, sdr = r, clock = 0, timers = []\<rparr>"

definition main_init :: "config \<Rightarrow> radio \<Rightarrow> (py_error \<times> radio) + state" where
  "main_init cfg r =
     (case tx [base_waveform cfg, base_waveform cfg] r of
        Inl e \<Rightarrow> Inl e
      | Inr r' \<Rightarrow> Inr (initial_state r'))"

subsection \<open>The event loop\<close>

text \<open>
  The timer that fires next: the earliest due time, and among equal due times the one
  that was set first.
\<close>

fun due_first :: "(nat \<times> callback) list \<Rightarrow> nat \<times> callback" where
  "due_first [] = (0, Update)"
| "due_first [t] = t"
| "due_first (t # ts) = (let u = due_first ts in if fst u < fst t then u else t)"

datatype event = Timeout | ClickOneShot | ClickContinuous

definition fire :: "config \<Rightarrow> state \<Rightarrow> (py_error \<times> state) + state" where
  "fire cfg st =
     (if timers st = [] then Inr st
      else let t = due_first (timers st);
               st' = st\<lparr>clock := max (clock st) (fst t), timers := remove1 t (timers st)\<rparr>
           in case snd t of
                Update \<Rightarrow> update cfg st'
              | StartSweep \<Rightarrow> Inr (start_sweep st'))"

definition handle :: "config \<Rightarrow> event \<Rightarrow> state \<Rightarrow> (py_error \<times> state) + state" where
  "handle cfg ev st =
     (case ev of
        Timeout \<Rightarrow> fire cfg st
      | ClickOneShot \<Rightarrow> Inr (one_shot st)
      | ClickContinuous \<Rightarrow> Inr (continuous st))"

text \<open>A run of the application; it ends at the first exception that escapes a callback.\<close>

fun exec :: "config \<Rightarrow> event list \<Rightarrow> state \<Rightarrow> (py_error \<times> state) + state" where
  "exec cfg [] st = Inr st"
| "exec cfg (ev # evs) st =
     (case handle cfg ev st of Inl e \<Rightarrow> Inl e | Inr st' \<Rightarrow> exec cfg evs st')"

subsection \<open>Assumptions on the hardware\<close>

text \<open>
  \<open>step_radio_fails r\<close>: one of the radio calls of the next \<open>update\<close> raises, that is
  the transmit call or one of the 22 receive calls. \<open>radio_ok r\<close>: no transmit call ever
  raises and every receive call returns a non-empty block.
\<close>

definition step_radio_fails :: "radio \<Rightarrow> bool" where
  "step_radio_fails r \<longleftrightarrow>
     tx_fails r (tx_calls r) \<or> (\<exists>k<22. rx_feed r (rx_calls r + k) = None)"

definition radio_ok :: "radio \<Rightarrow> bool" where
  "radio_ok r \<longleftrightarrow>
     (\<forall>k. \<not> tx_fails r k) \<and> (\<forall>k. \<exists>block. rx_feed r k = Some block \<and> block \<noteq> [])"

text \<open>
  Radios for the examples: one that always answers, one whose receiver is dead, and one
  whose receiver fails on the very first call only.
\<close>

definition steady_radio :: radio where
  "steady_radio =
     \<lparr>tx_fails = \<lambda>k. False, rx_feed = \<lambda>k. Some [1, 3, 1, 3], tx_calls = 0, rx_calls = 0,
      tx_buffer = None\<rparr>"

definition dead_radio :: radio where
  "dead_radio =
     \<lparr>tx_fails = \<lambda>k. False, rx_feed = \<lambda>k. None, tx_calls = 0, rx_calls = 0,
      tx_buffer = None\<rparr>"

definition flaky_radio :: radio where
  "flaky_radio =
     \<lparr>tx_fails = \<lambda>k. False, rx_feed = \<lambda>k. if k = 0 then None else Some [1, 3, 1, 3],
      tx_calls = 0, rx_calls = 0, tx_buffer = None\<rparr>"

section \<open>Properties of the numpy functions and of the two scans\<close>

lemma argmax_less: "xs \<noteq> [] \<Longrightarrow> argmax xs < length xs"
  by (induction xs rule: argmax.induct) (auto simp: Let_def)

lemma argmax_max: "i < length xs \<Longrightarrow> xs ! i \<le> xs ! argmax xs"
proof (induction xs arbitrary: i rule: argmax.induct)
  case 1 then show ?case by simp
next
  case (2 x) then show ?case by simp
next
  case (3 x y ys)
  show ?case
  proof (cases i)
    case 0
    then show ?thesis by (auto simp: Let_def)
  next
    case (Suc k)
    with 3 have "(y # ys) ! k \<le> (y # ys) ! argmax (y # ys)" by simp
    with Suc show ?thesis by (auto simp: Let_def)
  qed
qed

lemma scan_left_Some:
  "scan_left amps h n = Some i \<Longrightarrow>
     i < n \<and> amps ! i < h \<and> (\<forall>j. i < j \<and> j < n \<longrightarrow> \<not> amps ! j < h)"
proof (induction n)
  case 0 then show ?case by simp
next
  case (Suc n)
  show ?case
  proof (cases "amps ! n < h")
    case True
    with Suc.prems show ?thesis by auto
  next
    case False
    with Suc.prems have "scan_left amps h n = Some i" by simp
    from Suc.IH[OF this] False show ?thesis
      by (auto simp: less_Suc_eq)
  qed
qed

lemma scan_left_None:
  "scan_left amps h n = None \<Longrightarrow> \<forall>j<n. \<not> amps ! j < h"
  by (induction n) (auto simp: less_Suc_eq split: if_splits)

lemma scan_right_Some:
  "scan_right amps h s = Some i \<Longrightarrow>
     s \<le> i \<and> i < length amps \<and> amps ! i < h \<and> (\<forall>j. s \<le> j \<and> j < i \<longrightarrow> \<not> amps ! j < h)"
proof (induction amps h s rule: scan_right.induct)
  case (1 amps h s)
  show ?case
  proof (cases "length amps \<le> s")
    case True
    with "1.prems" show ?thesis by (simp add: scan_right.simps[of amps h s])
  next
    case ns: False
    show ?thesis
    proof (cases "amps ! s < h")
      case True
      with ns "1.prems" show ?thesis by (simp add: scan_right.simps[of amps h s])
    next
      case False
      with ns "1.prems" have "scan_right amps h (Suc s) = Some i"
        by (simp add: scan_right.simps[of amps h s])
      from "1.IH"[OF ns False this]
      have ih: "Suc s \<le> i" "i < length amps" "amps ! i < h"
        "\<forall>j. Suc s \<le> j \<and> j < i \<longrightarrow> \<not> amps ! j < h" by auto
      have split: "\<And>j. s \<le> j \<Longrightarrow> j = s \<or> Suc s \<le> j" by arith
      from ih(1) have "s \<le> i" by simp
      with ih split False show ?thesis by blast
    qed
  qed
qed

lemma scan_right_None:
  "scan_right amps h s = None \<Longrightarrow> \<forall>j. s \<le> j \<and> j < length amps \<longrightarrow> \<not> amps ! j < h"
proof (induction amps h s rule: scan_right.induct)
  case (1 amps h s)
  show ?case
  proof (cases "length amps \<le> s")
    case True
    then show ?thesis by auto
  next
    case ns: False
    with "1.prems" have nb: "\<not> amps ! s < h" and "scan_right amps h (Suc s) = None"
      by (auto simp: scan_right.simps[of amps h s] split: if_splits)
    from "1.IH"[OF ns nb this(2)]
    have ih: "\<forall>j. Suc s \<le> j \<and> j < length amps \<longrightarrow> \<not> amps ! j < h" .
    have split: "\<And>j. s \<le> j \<Longrightarrow> j = s \<or> Suc s \<le> j" by arith
    from ih split nb show ?thesis by blast
  qed
qed

lemma np_interp_rising:
  assumes "a < x" "x \<le> b"
  shows "np_interp x [a, b] [p, q] = Inr (p + (x - a) / (b - a) * (q - p))"
proof (cases "x = b")
  case True
  have "linear_search b [a, b] (Suc 0) = Suc 0"
    by (simp add: linear_search.simps[of b "[a, b]" "Suc 0"] linear_search.simps[of b "[a, b]" "Suc (Suc 0)"])
  with True assms show ?thesis by (simp add: np_interp_def)
next
  case False
  with assms have ls: "linear_search x [a, b] (Suc 0) = 0"
    by (simp add: linear_search.simps[of x "[a, b]" "Suc 0"])
  from False assms have "np_interp x [a, b] [p, q] = Inr ((q - p) / (b - a) * (x - a) + p)"
    by (simp add: np_interp_def ls Let_def)
  also have "(q - p) / (b - a) * (x - a) + p = p + (x - a) / (b - a) * (q - p)"
    by (simp add: mult.commute)
  finally show ?thesis .
qed

lemma np_interp_above: "b < x \<Longrightarrow> np_interp x [a, b] [p, q] = Inr q"
  by (simp add: np_interp_def)

section \<open>Properties of the half-power estimate\<close>

lemma left_crossing_None:
  "scan_left amps h idx = None \<Longrightarrow> left_crossing phases amps h idx = Inr (phases ! 0)"
  by (simp add: left_crossing_def)

lemma scan_left_next:
  assumes "scan_left amps h idx = Some i" "h \<le> amps ! idx"
  shows "h \<le> amps ! (i + 1)"
proof (cases "i + 1 = idx")
  case True
  with assms(2) show ?thesis by simp
next
  case False
  from scan_left_Some[OF assms(1)] have "i < idx" and
    nb: "\<forall>j. i < j \<and> j < idx \<longrightarrow> \<not> amps ! j < h" by auto
  with False have "i < i + 1 \<and> i + 1 < idx" by arith
  with nb have "\<not> amps ! (i + 1) < h" by blast
  then show ?thesis by simp
qed

lemma left_crossing_Some:
  assumes "scan_left amps h idx = Some i" "h \<le> amps ! idx"
  shows "left_crossing phases amps h idx =
           Inr (phases ! i + (h - amps ! i) / (amps ! (i + 1) - amps ! i)
                  * (phases ! (i + 1) - phases ! i))"
proof -
  from scan_left_Some[OF assms(1)] have lo: "amps ! i < h" by simp
  from scan_left_next[OF assms] have hi: "h \<le> amps ! (i + 1)" .
  show ?thesis
    unfolding left_crossing_def using assms(1) np_interp_rising[OF lo hi] by simp
qed

lemma right_crossing_None:
  "scan_right amps h (idx + 1) = None \<Longrightarrow> right_crossing phases amps h idx = Inr (last phases)"
  by (simp add: right_crossing_def)

lemma right_crossing_Some:
  assumes "scan_right amps h (idx + 1) = Some i" "i < length phases"
  shows "right_crossing phases amps h idx = Inr (phases ! i)"
proof -
  from scan_right_Some[OF assms(1)] have "amps ! i < h" by simp
  from np_interp_above[OF this] assms show ?thesis
    by (simp add: right_crossing_def)
qed

lemma hpbw_estimate_SomeD:
  assumes "hpbw_estimate phases amps w s = Inr (Some b)"
  shows "5 \<le> length amps" "argmax amps < length phases"
    "peak_db b = amps ! argmax amps" "peak_phi b = phases ! argmax amps"
    "half_db b = amps ! argmax amps - 3"
    "left_crossing phases amps (amps ! argmax amps - 3) (argmax amps) = Inr (left b)"
    "right_crossing phases amps (amps ! argmax amps - 3) (argmax amps) = Inr (right b)"
    "hpbw_phase b = right b - left b"
    "theta_l b = phase_to_angle (left b) w s" "theta_r b = phase_to_angle (right b) w s"
  using assms
  by (auto simp: hpbw_estimate_def Let_def split: if_splits sum.splits)

lemma interp_param:
  fixes a b h :: real
  assumes "a < h" "h \<le> b"
  shows "0 < (h - a) / (b - a)" "(h - a) / (b - a) \<le> 1" "a + (h - a) / (b - a) * (b - a) = h"
  using assms by (simp_all add: field_simps)

lemma estimate_symmetric_lobe:
  "hpbw_estimate [- 10, - 5, 0, 5, 10] [- 10, - 5, 0, - 5, - 10] w s =
     Inr (Some \<lparr>peak_phi = 0, peak_db = 0, half_db = - 3, left = - 3, right = 5,
                hpbw_phase = 8, theta_l = phase_to_angle (- 3) w s,
                theta_r = phase_to_angle 5 w s,
                hpbw_theta = phase_to_angle 5 w s - phase_to_angle (- 3) w s,
                min_db = - 10\<rparr>)"
proof -
  have l: "left_crossing [- 10, - 5, 0, 5, 10] [- 10, - 5, 0, - 5, - 10] (- 3) (Suc (Suc 0))
             = Inr (- 3)"
    by (simp add: left_crossing_def np_interp_def linear_search.simps)
  have r: "right_crossing [- 10, - 5, 0, 5, 10] [- 10, - 5, 0, - 5, - 10] (- 3) (Suc (Suc 0))
             = Inr 5"
    by (simp add: right_crossing_def np_interp_def scan_right.simps)
  show ?thesis
    by (simp add: hpbw_estimate_def Let_def l r)
qed

lemma estimate_flat_left:
  "\<exists>b. hpbw_estimate [- 10, - 5, 0, 5, 10] [- 1, 0, - 5, - 5, - 5] w s = Inr (Some b)"
proof -
  have l: "left_crossing [- 10, - 5, 0, 5, 10] [- 1, 0, - 5, - 5, - 5] (- 3) (Suc 0)
             = Inr (- 10)"
    by (simp add: left_crossing_def)
  have r: "right_crossing [- 10, - 5, 0, 5, 10] [- 1, 0, - 5, - 5, - 5] (- 3) (Suc 0)
             = Inr 0"
    by (simp add: right_crossing_def np_interp_def scan_right.simps)
  show ?thesis
    by (simp add: hpbw_estimate_def Let_def l r)
qed


text \<open>
  C1. On the symmetric five-point curve with phases \<open>-10, -5, 0, 5, 10\<close> and powers
  \<open>-10, -5, 0, -5, -10\<close> dB, the estimate has peak phase 0, peak power 0 dB, threshold
  \<open>-3\<close> dB and left crossing \<open>-3\<close>. On the right side \<open>np.interp\<close> receives the
  decreasing abscissae \<open>[0, -5]\<close>; the key \<open>-3\<close> lies above the last of them, so the
  result is the last ordinate: the right bound is 5, the phase of the first sample below
  the threshold, and the width is 8, not 6.
\<close>

theorem symmetric_lobe_right_not_interpolated:
  "\<exists>b. hpbw_estimate [- 10, - 5, 0, 5, 10] [- 10, - 5, 0, - 5, - 10] w s = Inr (Some b)
       \<and> peak_phi b = 0 \<and> peak_db b = 0 \<and> half_db b = - 3
       \<and> left b = - 3 \<and> right b = 5 \<and> hpbw_phase b = 8"
  by (simp add: estimate_symmetric_lobe)


text \<open>
  C4. Whenever \<open>annotate_results\<close> computes a summary, its left bound is as follows. If
  no index below the peak index has a power under the threshold, the left bound is the
  first phase. Otherwise, for the greatest index \<open>i\<close> below the peak index whose power is
  under the threshold (the first one met when scanning downwards), the left bound is the
  point at parameter \<open>t\<close> in \<open>(0, 1]\<close> on the segment from sample \<open>i\<close> to sample
  \<open>i + 1\<close>, and the power interpolated at the same parameter equals the threshold exactly.
\<close>

theorem left_crossing_interpolates:
  assumes "hpbw_estimate phases amps w s = Inr (Some b)"
  shows "((\<forall>j < argmax amps. \<not> amps ! j < half_db b) \<longrightarrow> left b = phases ! 0) \<and>
         (\<forall>i < argmax amps.
            amps ! i < half_db b \<and> (\<forall>j. i < j \<and> j < argmax amps \<longrightarrow> \<not> amps ! j < half_db b) \<longrightarrow>
            (\<exists>t. 0 < t \<and> t \<le> 1 \<and>
                 left b = phases ! i + t * (phases ! (i + 1) - phases ! i) \<and>
                 amps ! i + t * (amps ! (i + 1) - amps ! i) = half_db b))"
proof -
  define idx where "idx = argmax amps"
  define h where "h = amps ! idx - 3"
  note D = hpbw_estimate_SomeD[OF assms, folded idx_def, folded h_def]
  have hb: "half_db b = h" using D(5) .
  have lc: "left_crossing phases amps h idx = Inr (left b)" using D(6) .
  have top: "h \<le> amps ! idx" by (simp add: h_def)
  have none: "left b = phases ! 0" if "\<forall>j < idx. \<not> amps ! j < h"
  proof (cases "scan_left amps h idx")
    case None
    from left_crossing_None[OF this, of phases] lc show ?thesis by simp
  next
    case (Some i)
    from scan_left_Some[OF this] that show ?thesis by blast
  qed
  have some: "\<exists>t. 0 < t \<and> t \<le> 1 \<and>
                 left b = phases ! i + t * (phases ! (i + 1) - phases ! i) \<and>
                 amps ! i + t * (amps ! (i + 1) - amps ! i) = h"
    if i: "i < idx" "amps ! i < h" "\<forall>j. i < j \<and> j < idx \<longrightarrow> \<not> amps ! j < h" for i
  proof (cases "scan_left amps h idx")
    case None
    from scan_left_None[OF this] i show ?thesis by blast
  next
    case (Some k)
    from scan_left_Some[OF Some] have k: "k < idx" "amps ! k < h"
      "\<forall>j. k < j \<and> j < idx \<longrightarrow> \<not> amps ! j < h" by auto
    have "k = i"
    proof (rule ccontr)
      assume "k \<noteq> i"
      then consider "k < i" | "i < k" by arith
      then show False
      proof cases
        case 1 with k(3) i(1,2) show False by blast
      next
        case 2 with i(3) k(1,2) show False by blast
      qed
    qed
    with Some have sl: "scan_left amps h idx = Some i" by simp
    let ?t = "(h - amps ! i) / (amps ! (i + 1) - amps ! i)"
    from scan_left_next[OF sl top] have hi: "h \<le> amps ! (i + 1)" .
    from left_crossing_Some[OF sl top, of phases] lc
    have "left b = phases ! i + ?t * (phases ! (i + 1) - phases ! i)" by simp
    with interp_param[OF i(2) hi] show ?thesis by blast
  qed
  from none some show ?thesis unfolding hb idx_def[symmetric] by blast
qed


theorem left_crossing_interpolates_witness:
  "(\<exists>b t. hpbw_estimate [- 10, - 5, 0, 5, 10] [- 10, - 5, 0, - 5, - 10] 1 1 = Inr (Some b) \<and>
          0 < t \<and> t \<le> 1 \<and> left b = - 5 + t * 5 \<and> - 5 + t * 5 = half_db b) \<and>
   (\<exists>b. hpbw_estimate [- 10, - 5, 0, 5, 10] [- 1, 0, - 5, - 5, - 5] 1 1 = Inr (Some b) \<and>
        left b = - 10)"
proof
  let ?b = "\<lparr>peak_phi = 0, peak_db = 0, half_db = - 3, left = - 3, right = 5,
                hpbw_phase = 8, theta_l = phase_to_angle (- 3) 1 1,
                theta_r = phase_to_angle 5 1 1,
                hpbw_theta = phase_to_angle 5 1 1 - phase_to_angle (- 3) 1 1,
                min_db = - 10::real\<rparr>"
  have e: "hpbw_estimate [- 10, - 5, 0, 5, 10] [- 10, - 5, 0, - 5, - 10] 1 1 = Inr (Some ?b)"
    by (rule estimate_symmetric_lobe)
  have am: "argmax [- 10, - 5, 0, - 5, - 10] = Suc (Suc 0)" by simp
  from left_crossing_interpolates[OF e, unfolded am]
  have "\<forall>i<Suc (Suc 0). [- 10, - 5, 0, - 5, - 10] ! i < half_db ?b \<and>
          (\<forall>j. i < j \<and> j < Suc (Suc 0) \<longrightarrow> \<not> [- 10, - 5, 0, - 5, - 10::real] ! j < half_db ?b) \<longrightarrow>
          (\<exists>t. 0 < t \<and> t \<le> 1 \<and>
               left ?b = [- 10, - 5, 0, 5, 10] ! i + t * ([- 10, - 5, 0, 5, 10] ! (i + 1) - [- 10, - 5, 0, 5, 10] ! i) \<and>
               [- 10, - 5, 0, - 5, - 10] ! i + t * ([- 10, - 5, 0, - 5, - 10] ! (i + 1) - [- 10, - 5, 0, - 5, - 10] ! i) = half_db ?b)"
    by blast
  from this[rule_format, of "Suc 0"]
  have "\<exists>t::real. 0 < t \<and> t \<le> 1 \<and> left ?b = - 5 + t * 5 \<and> - 5 + t * 5 = half_db ?b"
    by simp
  with e show "\<exists>b t. hpbw_estimate [- 10, - 5, 0, 5, 10] [- 10, - 5, 0, - 5, - 10] 1 1 = Inr (Some b) \<and>
          0 < t \<and> t \<le> 1 \<and> left b = - 5 + t * 5 \<and> - 5 + t * 5 = half_db b"
    by blast
next
  from estimate_flat_left[of 1 1] obtain b where
    e: "hpbw_estimate [- 10, - 5, 0, 5, 10] [- 1, 0, - 5, - 5, - 5] 1 1 = Inr (Some b)" by blast
  have am: "argmax [- 1, 0, - 5, - 5, - 5] = Suc 0" by simp
  from hpbw_estimate_SomeD(5)[OF e] am have hb: "half_db b = - 3" by simp
  from left_crossing_interpolates[OF e, unfolded am hb]
  have "left b = [- 10, - 5, 0, 5, 10] ! 0" by simp
  with e show "\<exists>b. hpbw_estimate [- 10, - 5, 0, 5, 10] [- 1, 0, - 5, - 5, - 5] 1 1 = Inr (Some b) \<and>
        left b = - 10" by auto
qed

lemma sorted_wrt_nth_le:
  fixes xs :: "real list"
  assumes "sorted_wrt (<) xs" "i \<le> j" "j < length xs"
  shows "xs ! i \<le> xs ! j"
proof (cases "i = j")
  case True then show ?thesis by simp
next
  case False
  with assms(2) have "i < j" by simp
  from sorted_wrt_nth_less[OF assms(1) this assms(3)] show ?thesis by simp
qed

text \<open>
  C10. For at least five samples with strictly increasing phases (one power per phase),
  \<open>annotate_results\<close> computes a summary whose left bound is at most the peak phase,
  whose right bound is at least the peak phase, both bounds lie between the first and the
  last phase, and the width in phase is not negative.
\<close>

theorem bounds_enclose_peak:
  assumes len: "length phases = length amps" and five: "5 \<le> length amps"
    and inc: "sorted_wrt (<) phases"
  shows "\<exists>b. hpbw_estimate phases amps w s = Inr (Some b) \<and>
             left b \<le> peak_phi b \<and> peak_phi b \<le> right b \<and>
             phases ! 0 \<le> left b \<and> left b \<le> last phases \<and>
             phases ! 0 \<le> right b \<and> right b \<le> last phases \<and>
             0 \<le> hpbw_phase b"
proof -
  define idx where "idx = argmax amps"
  define h where "h = amps ! idx - 3"
  from five have ne: "amps \<noteq> []" by auto
  from argmax_less[OF ne] have idx: "idx < length amps" by (simp add: idx_def)
  with len have idxp: "idx < length phases" by simp
  from len five have pne: "phases \<noteq> []" by auto
  have lastp: "last phases = phases ! (length phases - 1)"
    using pne by (simp add: last_conv_nth)
  have top: "h \<le> amps ! idx" by (simp add: h_def)
  have mono: "\<And>i j. i \<le> j \<Longrightarrow> j < length phases \<Longrightarrow> phases ! i \<le> phases ! j"
    using sorted_wrt_nth_le[OF inc] by blast
  have peak_last: "phases ! idx \<le> last phases"
    unfolding lastp using idxp by (intro mono) auto
  have first_peak: "phases ! 0 \<le> phases ! idx"
    using idxp by (intro mono) auto
  obtain l where l: "left_crossing phases amps h idx = Inr l"
    and l_lo: "phases ! 0 \<le> l" and l_hi: "l \<le> phases ! idx"
  proof (cases "scan_left amps h idx")
    case None
    from left_crossing_None[OF None, of phases] first_peak that show ?thesis by simp
  next
    case (Some i)
    let ?t = "(h - amps ! i) / (amps ! (i + 1) - amps ! i)"
    from scan_left_Some[OF Some] have i: "i < idx" "amps ! i < h" by auto
    from scan_left_next[OF Some top] have hi: "h \<le> amps ! (i + 1)" .
    note t = interp_param(1,2)[OF i(2) hi]
    have step: "phases ! i \<le> phases ! (i + 1)" using i(1) idxp by (intro mono) auto
    have up: "phases ! (i + 1) \<le> phases ! idx" using i(1) idxp by (intro mono) auto
    have lo: "phases ! 0 \<le> phases ! i" using i(1) idxp by (intro mono) auto
    have a: "0 \<le> ?t * (phases ! (i + 1) - phases ! i)"
      using t(1) step by (intro mult_nonneg_nonneg) auto
    have "?t * (phases ! (i + 1) - phases ! i) \<le> 1 * (phases ! (i + 1) - phases ! i)"
      using t(2) step by (intro mult_right_mono) auto
    then have b: "phases ! i + ?t * (phases ! (i + 1) - phases ! i) \<le> phases ! (i + 1)"
      by simp
    from left_crossing_Some[OF Some top, of phases] a b lo up that show ?thesis
      by force
  qed
  obtain r where r: "right_crossing phases amps h idx = Inr r"
    and r_lo: "phases ! idx \<le> r" and r_hi: "r \<le> last phases"
  proof (cases "scan_right amps h (idx + 1)")
    case None
    from right_crossing_None[OF None, of phases] peak_last that show ?thesis by simp
  next
    case (Some i)
    from scan_right_Some[OF Some] have i: "idx + 1 \<le> i" "i < length amps" by auto
    with len have ip: "i < length phases" by simp
    have "phases ! idx \<le> phases ! i" using i(1) ip by (intro mono) auto
    moreover have "phases ! i \<le> last phases" unfolding lastp using ip by (intro mono) auto
    ultimately show ?thesis using right_crossing_Some[OF Some ip] that by simp
  qed
  let ?b = "\<lparr>peak_phi = phases ! idx, peak_db = amps ! idx, half_db = h,
             left = l, right = r, hpbw_phase = r - l,
             theta_l = phase_to_angle l w s, theta_r = phase_to_angle r w s,
             hpbw_theta = phase_to_angle r w s - phase_to_angle l w s,
             min_db = Min (set amps)\<rparr>"
  have "hpbw_estimate phases amps w s = Inr (Some ?b)"
    using five idxp l r
    by (simp add: hpbw_estimate_def Let_def idx_def[symmetric] h_def[symmetric])
  moreover have "left ?b \<le> peak_phi ?b" "peak_phi ?b \<le> right ?b"
    "phases ! 0 \<le> left ?b" "left ?b \<le> last phases"
    "phases ! 0 \<le> right ?b" "right ?b \<le> last phases" "0 \<le> hpbw_phase ?b"
    using l_lo l_hi r_lo r_hi peak_last first_peak by simp_all
  ultimately show ?thesis by blast
qed

theorem bounds_enclose_peak_witness:
  "\<exists>b. hpbw_estimate [- 10, - 5, 0, 5, 10] [- 10, - 5, 0, - 5, - 10] 1 1 = Inr (Some b) \<and>
       left b \<le> peak_phi b \<and> peak_phi b \<le> right b \<and>
       - 10 \<le> left b \<and> left b \<le> 10 \<and> - 10 \<le> right b \<and> right b \<le> 10 \<and>
       0 \<le> hpbw_phase b"
proof -
  have a: "length [- 10, - 5, 0, 5, 10::real] = length [- 10, - 5, 0, - 5, - 10::real]" by simp
  have b: "5 \<le> length [- 10, - 5, 0, - 5, - 10::real]" by simp
  have c: "sorted_wrt (<) [- 10, - 5, 0, 5, 10::real]" by simp
  from bounds_enclose_peak[OF a b c, of 1 1] show ?thesis by simp
qed

text \<open>
  C6. With fewer than five recorded powers the estimate is the early return, whatever the
  phases are, and \<open>annotate_results\<close> leaves the whole state, the graphics included, as
  it was.
\<close>

theorem too_few_samples:
  "(length amps < 5 \<longrightarrow> hpbw_estimate phases amps w s = Inr None) \<and>
   (length (amp_hist st) < 5 \<longrightarrow> annotate_results cfg st = Inr st)"
  by (simp add: hpbw_estimate_def annotate_results_def)

theorem too_few_samples_witness:
  "hpbw_estimate [- 2, 0, 2] [- 30, - 20, - 30] 1 1 = Inr None \<and>
   annotate_results default_config
     \<lparr>cur_phase = 182, ph_hist = [- 2, 0, 2, 4], amp_hist = [- 30, - 20, - 30, - 31],
      mode = OneShot, graphics = None,
      sdr = \<lparr>tx_fails = \<lambda>k. False, rx_feed = \<lambda>k. Some [1], tx_calls = 5,
             rx_calls = 88, tx_buffer = None\<rparr>,
      clock = 160, timers = []\<rparr>
   = Inr \<lparr>cur_phase = 182, ph_hist = [- 2, 0, 2, 4], amp_hist = [- 30, - 20, - 30, - 31],
      mode = OneShot, graphics = None,
      sdr = \<lparr>tx_fails = \<lambda>k. False, rx_feed = \<lambda>k. Some [1], tx_calls = 5,
             rx_calls = 88, tx_buffer = None\<rparr>,
      clock = 160, timers = []\<rparr>"
  using too_few_samples[of "[- 30, - 20, - 30]" "[- 2, 0, 2]" 1 1
       "\<lparr>cur_phase = 182, ph_hist = [- 2, 0, 2, 4], amp_hist = [- 30, - 20, - 30, - 31],
      mode = OneShot, graphics = None,
      sdr = \<lparr>tx_fails = \<lambda>k. False, rx_feed = \<lambda>k. Some [1], tx_calls = 5,
             rx_calls = 88, tx_buffer = None\<rparr>,
      clock = 160, timers = []\<rparr>" default_config]
  by simp

lemma clip_bounds: "lo \<le> hi \<Longrightarrow> lo \<le> clip x lo hi \<and> clip x lo hi \<le> hi"
  by (simp add: clip_def)

lemma degrees_quarter: "degrees (pi / 2) = 90" "degrees (- (pi / 2)) = - 90"
  by (simp_all add: degrees_def)

lemma degrees_mono: "x \<le> y \<Longrightarrow> degrees x \<le> degrees y"
  unfolding degrees_def by (intro mult_right_mono) auto

text \<open>
  C7. For every phase offset and every positive wavelength and element spacing, the
  spatial angle computed from the clipped sine lies between \<open>-90\<close> and \<open>90\<close> degrees.
\<close>

theorem angle_within_quarter_turn:
  assumes "0 < w" "0 < s"
  shows "- 90 \<le> phase_to_angle phi w s \<and> phase_to_angle phi w s \<le> 90"
proof -
  let ?c = "clip ((deg2rad phi * w) / (2 * pi * s)) (- 1) 1"
  have c: "- 1 \<le> ?c" "?c \<le> 1" using clip_bounds[of "- 1" 1] by simp_all
  have "- (pi / 2) \<le> arcsin ?c" "arcsin ?c \<le> pi / 2"
    using arcsin_lbound[OF c] arcsin_ubound[OF c] by blast+
  then have "degrees (- (pi / 2)) \<le> degrees (arcsin ?c)" "degrees (arcsin ?c) \<le> degrees (pi / 2)"
    by (simp_all only: degrees_mono)
  then show ?thesis by (simp add: phase_to_angle_def degrees_quarter)
qed

theorem angle_within_quarter_turn_witness:
  "(0::real) < 1 / 8 \<and> (0::real) < 1 / 16 \<and>
   - 90 \<le> phase_to_angle 1000 (1 / 8) (1 / 16) \<and> phase_to_angle 1000 (1 / 8) (1 / 16) \<le> 90"
proof -
  have a: "(0::real) < 1 / 8" and b: "(0::real) < 1 / 16" by simp_all
  from angle_within_quarter_turn[OF a b, of 1000] a b show ?thesis by blast
qed

section \<open>Properties of the radio calls of a step\<close>

lemma rx_Some:
  "rx_feed r (rx_calls r) = Some block \<Longrightarrow> rx r = Inr (block, r\<lparr>rx_calls := Suc (rx_calls r)\<rparr>)"
  by (simp add: rx_def)

lemma rx_None:
  "rx_feed r (rx_calls r) = None \<Longrightarrow> rx r = Inl (RadioError, r\<lparr>rx_calls := Suc (rx_calls r)\<rparr>)"
  by (simp add: rx_def)

lemma flush_ok:
  "\<forall>k<n. rx_feed r (rx_calls r + k) \<noteq> None \<Longrightarrow>
     flush n r = Inr (r\<lparr>rx_calls := rx_calls r + n\<rparr>)"
proof (induction n arbitrary: r)
  case 0
  then show ?case by simp
next
  case (Suc n)
  from Suc.prems have "rx_feed r (rx_calls r + 0) \<noteq> None" by blast
  then obtain block where b: "rx_feed r (rx_calls r) = Some block" by auto
  let ?r = "r\<lparr>rx_calls := Suc (rx_calls r)\<rparr>"
  have "\<forall>k<n. rx_feed ?r (rx_calls ?r + k) \<noteq> None"
  proof (intro allI impI)
    fix k assume "k < n"
    then have "Suc k < Suc n" by simp
    with Suc.prems have "rx_feed r (rx_calls r + Suc k) \<noteq> None" by blast
    then show "rx_feed ?r (rx_calls ?r + k) \<noteq> None" by simp
  qed
  from Suc.IH[OF this] rx_Some[OF b] show ?case by simp
qed

lemma flush_fail:
  "\<exists>k<n. rx_feed r (rx_calls r + k) = None \<Longrightarrow>
     \<exists>r'. flush n r = Inl (RadioError, r') \<and> tx_buffer r' = tx_buffer r
          \<and> tx_fails r' = tx_fails r \<and> rx_feed r' = rx_feed r \<and> tx_calls r' = tx_calls r"
proof (induction n arbitrary: r)
  case 0
  then show ?case by simp
next
  case (Suc n)
  show ?case
  proof (cases "rx_feed r (rx_calls r)")
    case None
    from rx_None[OF None] show ?thesis by simp
  next
    case (Some block)
    let ?r = "r\<lparr>rx_calls := Suc (rx_calls r)\<rparr>"
    from Suc.prems obtain k where k: "k < Suc n" "rx_feed r (rx_calls r + k) = None" by blast
    with Some have "k \<noteq> 0" by (cases k) auto
    then obtain j where j: "k = Suc j" by (cases k) auto
    with k have "\<exists>j<n. rx_feed ?r (rx_calls ?r + j) = None" by auto
    from Suc.IH[OF this] rx_Some[OF Some] show ?thesis by simp
  qed
qed

lemma capture_ok:
  assumes "\<forall>k<22. rx_feed r (rx_calls r + k) \<noteq> None"
  shows "capture r =
     Inr (map (\<lambda>z. (z - mean (the (rx_feed r (rx_calls r + 21)))) / 2 ^ 11)
            (the (rx_feed r (rx_calls r + 20))),
          r\<lparr>rx_calls := rx_calls r + 22\<rparr>)"
proof -
  from assms have "\<forall>k<20. rx_feed r (rx_calls r + k) \<noteq> None" by auto
  from flush_ok[OF this] have f: "flush 20 r = Inr (r\<lparr>rx_calls := rx_calls r + 20\<rparr>)" .
  from assms obtain a where a: "rx_feed r (rx_calls r + 20) = Some a" by force
  from assms obtain b where b: "rx_feed r (rx_calls r + 21) = Some b" by force
  let ?r1 = "r\<lparr>rx_calls := rx_calls r + 20\<rparr>"
  let ?r2 = "r\<lparr>rx_calls := rx_calls r + 21\<rparr>"
  have r1: "rx ?r1 = Inr (a, ?r2)" using a by (simp add: rx_def)
  have r2: "rx ?r2 = Inr (b, r\<lparr>rx_calls := rx_calls r + 22\<rparr>)" using b by (simp add: rx_def)
  show ?thesis by (simp add: capture_def f r1 r2 a b)
qed

lemma capture_fail:
  assumes "\<exists>k<22. rx_feed r (rx_calls r + k) = None"
  shows "\<exists>r'. capture r = Inl (RadioError, r')"
proof (cases "\<exists>k<20. rx_feed r (rx_calls r + k) = None")
  case True
  from flush_fail[OF True] show ?thesis by (auto simp: capture_def)
next
  case False
  then have "\<forall>k<20. rx_feed r (rx_calls r + k) \<noteq> None" by auto
  from flush_ok[OF this] have f: "flush 20 r = Inr (r\<lparr>rx_calls := rx_calls r + 20\<rparr>)" .
  from assms False obtain k where k: "20 \<le> k" "k < 22" "rx_feed r (rx_calls r + k) = None"
    by (metis not_le_imp_less)
  then consider "k = 20" | "k = 21" by arith
  then show ?thesis
  proof cases
    case 1
    with k show ?thesis by (simp add: capture_def f rx_def)
  next
    case 2
    show ?thesis
    proof (cases "rx_feed r (rx_calls r + 20)")
      case None
      then show ?thesis by (simp add: capture_def f rx_def)
    next
      case (Some a)
      let ?r1 = "r\<lparr>rx_calls := rx_calls r + 20\<rparr>"
      let ?r2 = "r\<lparr>rx_calls := rx_calls r + 21\<rparr>"
      have r1: "rx ?r1 = Inr (a, ?r2)" using Some by (simp add: rx_def)
      have r2: "rx ?r2 = Inl (RadioError, r\<lparr>rx_calls := rx_calls r + 22\<rparr>)"
        using k(3) 2 by (simp add: rx_def)
      show ?thesis by (simp add: capture_def f r1 r2)
    qed
  qed
qed

lemma capture_InlD: "capture r = Inl (e, r') \<Longrightarrow> e = RadioError"
proof (cases "\<exists>k<22. rx_feed r (rx_calls r + k) = None")
  case True
  assume "capture r = Inl (e, r')"
  with capture_fail[OF True] show ?thesis by auto
next
  case False
  assume c: "capture r = Inl (e, r')"
  from False have "\<forall>k<22. rx_feed r (rx_calls r + k) \<noteq> None" by auto
  from capture_ok[OF this] c show ?thesis by simp
qed

lemma capture_InrD:
  assumes "capture r = Inr (samples, r')"
  shows "r' = r\<lparr>rx_calls := rx_calls r + 22\<rparr>"
proof (cases "\<exists>k<22. rx_feed r (rx_calls r + k) = None")
  case True
  from capture_fail[OF True] assms show ?thesis by auto
next
  case False
  then have "\<forall>k<22. rx_feed r (rx_calls r + k) \<noteq> None" by auto
  from capture_ok[OF this] assms show ?thesis by simp
qed

text \<open>
  C2. Each step reads 22 blocks: 20 are flushed, the 21st is the block that is analysed,
  and the mean that is subtracted from it is the mean of the 22nd block, not its own.
  With the blocks \<open>[1, 3]\<close> and \<open>[10, 10]\<close> after the flush, the samples handed to the
  analysis are \<open>[-9/2048, -7/2048]\<close>; removing the mean of \<open>[1, 3]\<close> itself would give
  \<open>[-1/2048, 1/2048]\<close>.
\<close>

theorem capture_uses_two_blocks:
  "capture \<lparr>tx_fails = \<lambda>k. False,
            rx_feed = \<lambda>k. if k = 20 then Some [1, 3] else Some [10, 10],
            tx_calls = 0, rx_calls = 0, tx_buffer = None\<rparr>
     = Inr ([- 9 / 2048, - 7 / 2048],
            \<lparr>tx_fails = \<lambda>k. False,
             rx_feed = \<lambda>k. if k = 20 then Some [1, 3] else Some [10, 10],
             tx_calls = 0, rx_calls = 22, tx_buffer = None\<rparr>)
   \<and> map (\<lambda>z. (z - mean [1, 3]) / 2 ^ 11) [1, 3] = [- 1 / 2048, 1 / 2048]"
proof -
  let ?r = "\<lparr>tx_fails = \<lambda>k. False,
            rx_feed = \<lambda>k. if k = 20 then Some [1, 3::complex] else Some [10, 10],
            tx_calls = 0, rx_calls = 0, tx_buffer = None\<rparr>"
  have "\<forall>k<22. rx_feed ?r (rx_calls ?r + k) \<noteq> None" by simp
  from capture_ok[OF this] show ?thesis by (simp add: mean_def)
qed

section \<open>Properties of \<open>update\<close> and of the event loop\<close>

lemma np_interp_pair: "\<exists>v. np_interp x [a, b] [p, q] = Inr v"
  by (simp add: np_interp_def Let_def)

lemma left_crossing_total: "\<exists>l. left_crossing phases amps h idx = Inr l"
  using np_interp_pair by (cases "scan_left amps h idx") (simp_all add: left_crossing_def)

lemma right_crossing_total:
  assumes "length phases = length amps"
  shows "\<exists>r. right_crossing phases amps h idx = Inr r"
proof (cases "scan_right amps h (idx + 1)")
  case None
  then show ?thesis by (simp add: right_crossing_def)
next
  case (Some i)
  from scan_right_Some[OF Some] assms have "i < length phases" by simp
  with Some np_interp_pair show ?thesis by (simp add: right_crossing_def)
qed

lemma hpbw_estimate_total:
  assumes "length phases = length amps"
  shows "\<exists>res. hpbw_estimate phases amps w s = Inr res"
proof (cases "length amps < 5")
  case True
  then show ?thesis by (simp add: hpbw_estimate_def)
next
  case False
  then have "amps \<noteq> []" by auto
  from argmax_less[OF this] assms have idx: "argmax amps < length phases" by simp
  obtain l where l: "left_crossing phases amps (amps ! argmax amps - 3) (argmax amps) = Inr l"
    using left_crossing_total by blast
  obtain r where r: "right_crossing phases amps (amps ! argmax amps - 3) (argmax amps) = Inr r"
    using right_crossing_total[OF assms] by blast
  from False idx l r show ?thesis by (simp add: hpbw_estimate_def Let_def)
qed

lemma annotate_results_ok:
  assumes "length (ph_hist st) = length (amp_hist st)"
  shows "\<exists>g. annotate_results cfg st = Inr (st\<lparr>graphics := g\<rparr>)"
proof -
  from assms have "length (map real_of_int (ph_hist st)) = length (amp_hist st)" by simp
  from hpbw_estimate_total[OF this] obtain res where
    res: "hpbw_estimate (map of_int (ph_hist st)) (amp_hist st) (lam cfg) (d cfg) = Inr res"
    by blast
  show ?thesis
  proof (cases res)
    case None
    with res have "annotate_results cfg st = Inr (st\<lparr>graphics := graphics st\<rparr>)"
      by (simp add: annotate_results_def)
    then show ?thesis by blast
  next
    case (Some b)
    with res have "annotate_results cfg st = Inr (st\<lparr>graphics := Some b\<rparr>)"
      by (simp add: annotate_results_def)
    then show ?thesis by blast
  qed
qed

lemma annotate_results_InrD:
  "annotate_results cfg st = Inr st' \<Longrightarrow> \<exists>g. st' = st\<lparr>graphics := g\<rparr>"
proof -
  assume a: "annotate_results cfg st = Inr st'"
  show ?thesis
  proof (cases "hpbw_estimate (map of_int (ph_hist st)) (amp_hist st) (lam cfg) (d cfg)")
    case (Inl e)
    with a show ?thesis by (simp add: annotate_results_def)
  next
    case (Inr res)
    show ?thesis
    proof (cases res)
      case None
      with Inr a have "st' = st\<lparr>graphics := graphics st\<rparr>" by (simp add: annotate_results_def)
      then show ?thesis by blast
    next
      case (Some b)
      with Inr a have "st' = st\<lparr>graphics := Some b\<rparr>" by (simp add: annotate_results_def)
      then show ?thesis by blast
    qed
  qed
qed

lemma annotate_results_InlD:
  "annotate_results cfg st = Inl (e, st') \<Longrightarrow> e = IndexError \<or> e = ValueError"
  by (cases e) (auto simp: annotate_results_def hpbw_estimate_def left_crossing_def
      right_crossing_def np_interp_def Let_def split: sum.splits option.splits if_splits)

lemma update_ok:
  assumes txok: "\<not> tx_fails (sdr st) (tx_calls (sdr st))"
    and rxok: "\<forall>k<22. rx_feed (sdr st) (rx_calls (sdr st) + k) \<noteq> None"
    and ne: "the (rx_feed (sdr st) (rx_calls (sdr st) + 20)) \<noteq> []"
  shows "\<exists>st2. ph_hist st2 = ph_hist st @ [cur_phase st] \<and>
           length (amp_hist st2) = Suc (length (amp_hist st)) \<and>
           cur_phase st2 = cur_phase st + phase_step cfg \<and>
           mode st2 = mode st \<and> clock st2 = clock st \<and> timers st2 = timers st \<and>
           tx_fails (sdr st2) = tx_fails (sdr st) \<and> rx_feed (sdr st2) = rx_feed (sdr st) \<and>
           update cfg st =
             (if 180 < cur_phase st + phase_step cfg then
                (case annotate_results cfg st2 of
                   Inl e \<Rightarrow> Inl e
                 | Inr st3 \<Rightarrow>
                     Inr (if mode st3 = Continuous
                          then singleShot (update_interval cfg) StartSweep st3 else st3))
              else Inr (singleShot (update_interval cfg) Update st2))"
proof -
  define bufs where "bufs = [base_waveform cfg,
     map (\<lambda>z. z * cis (deg2rad (of_int (cur_phase st)))) (base_waveform cfg)]"
  define r1 where "r1 = (sdr st)\<lparr>tx_buffer := Some bufs, tx_calls := Suc (tx_calls (sdr st))\<rparr>"
  define samples where "samples =
     map (\<lambda>z. (z - mean (the (rx_feed r1 (rx_calls r1 + 21)))) / 2 ^ 11)
       (the (rx_feed r1 (rx_calls r1 + 20)))"
  define r2 where "r2 = r1\<lparr>rx_calls := rx_calls r1 + 22\<rparr>"
  define st2 where "st2 = st\<lparr>sdr := r2, ph_hist := ph_hist st @ [cur_phase st],
     amp_hist := amp_hist st @ [20 * log 10 (pwr_lin (analyze cfg samples))],
     cur_phase := cur_phase st + phase_step cfg\<rparr>"
  have t: "tx bufs (tx_destroy_buffer (sdr st)) = Inr r1"
    using txok by (simp add: tx_def tx_destroy_buffer_def r1_def Let_def)
  have "\<forall>k<22. rx_feed r1 (rx_calls r1 + k) \<noteq> None"
    using rxok by (simp add: r1_def)
  from capture_ok[OF this] have c: "capture r1 = Inr (samples, r2)"
    by (simp add: samples_def r2_def)
  have sne: "samples \<noteq> []" using ne by (simp add: samples_def r1_def)
  have "update cfg st =
             (if 180 < cur_phase st + phase_step cfg then
                (case annotate_results cfg st2 of
                   Inl e \<Rightarrow> Inl e
                 | Inr st3 \<Rightarrow>
                     Inr (if mode st3 = Continuous
                          then singleShot (update_interval cfg) StartSweep st3 else st3))
              else Inr (singleShot (update_interval cfg) Update st2))"
    unfolding update_def Let_def bufs_def[symmetric] t
    by (simp add: c sne st2_def)
  moreover have "ph_hist st2 = ph_hist st @ [cur_phase st]"
    "length (amp_hist st2) = Suc (length (amp_hist st))"
    "cur_phase st2 = cur_phase st + phase_step cfg"
    "mode st2 = mode st" "clock st2 = clock st" "timers st2 = timers st"
    "tx_fails (sdr st2) = tx_fails (sdr st)" "rx_feed (sdr st2) = rx_feed (sdr st)"
    by (simp_all add: st2_def r2_def r1_def)
  ultimately show ?thesis by blast
qed

lemma radio_ok_step:
  assumes "radio_ok r"
  shows "\<not> tx_fails r (tx_calls r)" "\<forall>k<22. rx_feed r (rx_calls r + k) \<noteq> None"
    "the (rx_feed r (rx_calls r + 20)) \<noteq> []"
proof -
  from assms show "\<not> tx_fails r (tx_calls r)" by (simp add: radio_ok_def)
  from assms have all: "\<And>k. \<exists>block. rx_feed r k = Some block \<and> block \<noteq> []"
    by (simp add: radio_ok_def)
  show "\<forall>k<22. rx_feed r (rx_calls r + k) \<noteq> None"
  proof (intro allI impI)
    fix k from all[of "rx_calls r + k"] show "rx_feed r (rx_calls r + k) \<noteq> None" by auto
  qed
  from all[of "rx_calls r + 20"] show "the (rx_feed r (rx_calls r + 20)) \<noteq> []" by auto
qed

lemma radio_ok_cong:
  "tx_fails r' = tx_fails r \<Longrightarrow> rx_feed r' = rx_feed r \<Longrightarrow> radio_ok r \<Longrightarrow> radio_ok r'"
  by (simp add: radio_ok_def)

lemma update_continue:
  assumes ok: "radio_ok (sdr st)" and more: "cur_phase st + phase_step cfg \<le> 180"
  shows "\<exists>st'. update cfg st = Inr st' \<and>
           ph_hist st' = ph_hist st @ [cur_phase st] \<and>
           length (amp_hist st') = Suc (length (amp_hist st)) \<and>
           cur_phase st' = cur_phase st + phase_step cfg \<and>
           mode st' = mode st \<and> radio_ok (sdr st') \<and> clock st' = clock st \<and>
           timers st' = timers st @ [(clock st + update_interval cfg, Update)]"
proof -
  from update_ok[OF radio_ok_step[OF ok], of cfg] obtain st2 where
    st2: "ph_hist st2 = ph_hist st @ [cur_phase st]"
      "length (amp_hist st2) = Suc (length (amp_hist st))"
      "cur_phase st2 = cur_phase st + phase_step cfg"
      "mode st2 = mode st" "clock st2 = clock st" "timers st2 = timers st"
      "tx_fails (sdr st2) = tx_fails (sdr st)" "rx_feed (sdr st2) = rx_feed (sdr st)"
    and u: "update cfg st =
             (if 180 < cur_phase st + phase_step cfg then
                (case annotate_results cfg st2 of
                   Inl e \<Rightarrow> Inl e
                 | Inr st3 \<Rightarrow>
                     Inr (if mode st3 = Continuous
                          then singleShot (update_interval cfg) StartSweep st3 else st3))
              else Inr (singleShot (update_interval cfg) Update st2))"
    by blast
  from u more have "update cfg st = Inr (singleShot (update_interval cfg) Update st2)" by simp
  moreover have "radio_ok (sdr st2)" using radio_ok_cong[OF st2(7,8) ok] .
  ultimately show ?thesis using st2 by (simp add: singleShot_def)
qed

lemma update_finish:
  assumes ok: "radio_ok (sdr st)" and fin: "180 < cur_phase st + phase_step cfg"
    and len: "length (ph_hist st) = length (amp_hist st)"
  shows "\<exists>st'. update cfg st = Inr st' \<and>
           ph_hist st' = ph_hist st @ [cur_phase st] \<and>
           length (amp_hist st') = Suc (length (amp_hist st)) \<and>
           cur_phase st' = cur_phase st + phase_step cfg \<and>
           mode st' = mode st \<and> radio_ok (sdr st') \<and> clock st' = clock st \<and>
           timers st' = (if mode st = Continuous
                         then timers st @ [(clock st + update_interval cfg, StartSweep)]
                         else timers st)"
proof -
  from update_ok[OF radio_ok_step[OF ok], of cfg] obtain st2 where
    st2: "ph_hist st2 = ph_hist st @ [cur_phase st]"
      "length (amp_hist st2) = Suc (length (amp_hist st))"
      "cur_phase st2 = cur_phase st + phase_step cfg"
      "mode st2 = mode st" "clock st2 = clock st" "timers st2 = timers st"
      "tx_fails (sdr st2) = tx_fails (sdr st)" "rx_feed (sdr st2) = rx_feed (sdr st)"
    and u: "update cfg st =
             (if 180 < cur_phase st + phase_step cfg then
                (case annotate_results cfg st2 of
                   Inl e \<Rightarrow> Inl e
                 | Inr st3 \<Rightarrow>
                     Inr (if mode st3 = Continuous
                          then singleShot (update_interval cfg) StartSweep st3 else st3))
              else Inr (singleShot (update_interval cfg) Update st2))"
    by blast
  from st2(1,2) len have "length (ph_hist st2) = length (amp_hist st2)" by simp
  from annotate_results_ok[OF this, of cfg] obtain g where
    a: "annotate_results cfg st2 = Inr (st2\<lparr>graphics := g\<rparr>)" by blast
  have rok: "radio_ok (sdr st2)" using radio_ok_cong[OF st2(7,8) ok] .
  show ?thesis
  proof (cases "mode st = Continuous")
    case True
    with u fin a st2(4) have
      "update cfg st = Inr (singleShot (update_interval cfg) StartSweep (st2\<lparr>graphics := g\<rparr>))"
      by simp
    with st2 rok True show ?thesis by (simp add: singleShot_def)
  next
    case False
    with u fin a st2(4) have "update cfg st = Inr (st2\<lparr>graphics := g\<rparr>)" by simp
    with st2 rok False show ?thesis by simp
  qed
qed

lemma fire_single_update:
  "timers st = [(t, Update)] \<Longrightarrow>
     fire cfg st = update cfg (st\<lparr>clock := max (clock st) t, timers := []\<rparr>)"
  by (simp add: fire_def Let_def)

lemma fire_single_start:
  "timers st = [(t, StartSweep)] \<Longrightarrow>
     fire cfg st = Inr (start_sweep (st\<lparr>clock := max (clock st) t, timers := []\<rparr>))"
  by (simp add: fire_def Let_def)

lemma arith_phases:
  "map (\<lambda>k. c + int k * s) [0..<Suc (Suc n)] = c # map (\<lambda>k. (c + s) + int k * s) [0..<Suc n]"
proof -
  have "map (\<lambda>k. c + int k * s) [0..<Suc (Suc n)]
          = (c + int 0 * s) # map (\<lambda>k. c + int (Suc k) * s) [0..<Suc n]"
    by (rule map_upt_Suc)
  also have "(\<lambda>k. c + int (Suc k) * s) = (\<lambda>k. (c + s) + int k * s)"
    by (rule ext) (simp add: algebra_simps)
  finally show ?thesis by simp
qed

lemma sweep_run:
  assumes "0 < phase_step cfg" "radio_ok (sdr st)" "timers st = [(t, Update)]"
    "length (ph_hist st) = length (amp_hist st)"
    "cur_phase st + int n * phase_step cfg \<le> 180"
    "180 < cur_phase st + int (Suc n) * phase_step cfg"
  shows "\<exists>st'. exec cfg (replicate (Suc n) Timeout) st = Inr st' \<and>
           ph_hist st' = ph_hist st @ map (\<lambda>k. cur_phase st + int k * phase_step cfg) [0..<Suc n] \<and>
           length (amp_hist st') = length (ph_hist st') \<and>
           cur_phase st' = cur_phase st + int (Suc n) * phase_step cfg \<and>
           mode st' = mode st \<and> radio_ok (sdr st') \<and>
           (if mode st = Continuous then \<exists>t'. timers st' = [(t', StartSweep)]
            else timers st' = [])"
  using assms
proof (induction n arbitrary: st t)
  case 0
  let ?s = "st\<lparr>clock := max (clock st) t, timers := []\<rparr>"
  have "radio_ok (sdr ?s)" "180 < cur_phase ?s + phase_step cfg"
    "length (ph_hist ?s) = length (amp_hist ?s)"
    using "0.prems" by simp_all
  from update_finish[OF this] obtain st' where
    u: "update cfg ?s = Inr st'" and
    p: "ph_hist st' = ph_hist st @ [cur_phase st]"
       "length (amp_hist st') = Suc (length (amp_hist st))"
       "cur_phase st' = cur_phase st + phase_step cfg"
       "mode st' = mode st" "radio_ok (sdr st')"
       "timers st' = (if mode st = Continuous
                      then [(max (clock st) t + update_interval cfg, StartSweep)] else [])"
    by auto
  from u fire_single_update[OF "0.prems"(3), of cfg]
  have "exec cfg (replicate (Suc 0) Timeout) st = Inr st'"
    by (simp add: handle_def)
  with p "0.prems"(4) show ?case by auto
next
  case (Suc n)
  let ?s = "st\<lparr>clock := max (clock st) t, timers := []\<rparr>"
  have nn: "0 \<le> int (Suc n) * phase_step cfg" using Suc.prems(1) by simp
  have more: "cur_phase ?s + phase_step cfg \<le> 180"
  proof -
    have "phase_step cfg \<le> int (Suc n) * phase_step cfg"
      using Suc.prems(1) by (simp add: algebra_simps)
    with Suc.prems(5) show ?thesis by simp
  qed
  have "radio_ok (sdr ?s)" using Suc.prems by simp
  from update_continue[OF this more] obtain st1 where
    u: "update cfg ?s = Inr st1" and
    p: "ph_hist st1 = ph_hist st @ [cur_phase st]"
       "length (amp_hist st1) = Suc (length (amp_hist st))"
       "cur_phase st1 = cur_phase st + phase_step cfg"
       "mode st1 = mode st" "radio_ok (sdr st1)"
       "timers st1 = [(max (clock st) t + update_interval cfg, Update)]"
    by auto
  from u fire_single_update[OF Suc.prems(3), of cfg]
  have h: "handle cfg Timeout st = Inr st1" by (simp add: handle_def)
  have l1: "length (ph_hist st1) = length (amp_hist st1)" using p Suc.prems(4) by simp
  have b1: "cur_phase st1 + int n * phase_step cfg \<le> 180"
    using Suc.prems(5) p(3) by (simp add: algebra_simps)
  have b2: "180 < cur_phase st1 + int (Suc n) * phase_step cfg"
    using Suc.prems(6) p(3) by (simp add: algebra_simps)
  from Suc.IH[OF Suc.prems(1) p(5) p(6) l1 b1 b2] obtain st' where
    e: "exec cfg (replicate (Suc n) Timeout) st1 = Inr st'" and
    q: "ph_hist st' = ph_hist st1 @ map (\<lambda>k. cur_phase st1 + int k * phase_step cfg) [0..<Suc n]"
       "length (amp_hist st') = length (ph_hist st')"
       "cur_phase st' = cur_phase st1 + int (Suc n) * phase_step cfg"
       "mode st' = mode st1" "radio_ok (sdr st')"
       "if mode st1 = Continuous then \<exists>t'. timers st' = [(t', StartSweep)] else timers st' = []"
    by blast
  have e': "exec cfg (replicate (Suc (Suc n)) Timeout) st = Inr st'"
    using h e by simp
  have ph: "ph_hist st' =
      ph_hist st @ map (\<lambda>k. cur_phase st + int k * phase_step cfg) [0..<Suc (Suc n)]"
    unfolding q(1) p(1) p(3) arith_phases by simp
  have cp: "cur_phase st' = cur_phase st + int (Suc (Suc n)) * phase_step cfg"
    unfolding q(3) p(3) by (simp add: algebra_simps)
  from e' ph cp q(2,4,5,6) p(4) show ?case by auto
qed


lemma continuous_fields:
  "timers st = [] \<Longrightarrow>
     timers (continuous st) = [(clock st, Update)] \<and> cur_phase (continuous st) = - 180 \<and>
     ph_hist (continuous st) = [] \<and> amp_hist (continuous st) = [] \<and>
     mode (continuous st) = Continuous \<and> sdr (continuous st) = sdr st"
  by (simp add: continuous_def start_sweep_def singleShot_def)

lemma sweep_count:
  fixes s :: int
  assumes "0 < s"
  shows "- 180 + int (nat (360 div s)) * s \<le> 180" "180 < - 180 + int (Suc (nat (360 div s))) * s"
proof -
  from assms have nn: "0 \<le> 360 div s" by (simp add: pos_imp_zdiv_nonneg_iff)
  have eq: "360 = 360 div s * s + 360 mod s" by simp
  have m0: "0 \<le> 360 mod s" and m1: "360 mod s < s" using assms by simp_all
  from eq m0 have "360 div s * s \<le> 360" by linarith
  with nn show "- 180 + int (nat (360 div s)) * s \<le> 180" by simp
  from eq m1 have "360 < 360 div s * s + s" by linarith
  with nn show "180 < - 180 + int (Suc (nat (360 div s))) * s" by (simp add: algebra_simps)
qed


lemma fire_update:
  assumes "timers st \<noteq> []" "snd (due_first (timers st)) = Update"
  shows "fire cfg st =
           update cfg (st\<lparr>clock := max (clock st) (fst (due_first (timers st))),
                            timers := remove1 (due_first (timers st)) (timers st)\<rparr>)"
  using assms by (simp add: fire_def Let_def)






text \<open>
  C8. In continuous mode, under the same assumptions, the step that completes the sweep
  leaves exactly one pending timer, for \<open>start_sweep\<close>. When it fires, both histories
  are empty, the phase is back at \<open>-180\<close>, the graphics are cleared and the first step is
  scheduled; after that step the recorded phases are \<open>[-180]\<close>, so nothing of the
  previous sweep is kept.
\<close>

theorem continuous_restart_clears:
  assumes "0 < phase_step cfg" "radio_ok (sdr st)" "timers st = []"
  shows "\<exists>st1 st2 st3.
           exec cfg (ClickContinuous # replicate (Suc (nat (360 div phase_step cfg))) Timeout) st
             = Inr st1 \<and>
           180 < cur_phase st1 \<and>
           ph_hist st1 = map (\<lambda>k. - 180 + int k * phase_step cfg)
                           [0..<Suc (nat (360 div phase_step cfg))] \<and>
           (\<exists>t. timers st1 = [(t, StartSweep)]) \<and>
           handle cfg Timeout st1 = Inr st2 \<and>
           cur_phase st2 = - 180 \<and> ph_hist st2 = [] \<and> amp_hist st2 = [] \<and>
           graphics st2 = None \<and> mode st2 = Continuous \<and>
           (\<exists>t. timers st2 = [(t, Update)]) \<and>
           handle cfg Timeout st2 = Inr st3 \<and>
           ph_hist st3 = [- 180] \<and> length (amp_hist st3) = 1"
proof -
  define n where "n = nat (360 div phase_step cfg)"
  let ?s = "continuous st"
  note f = continuous_fields[OF assms(3)]
  have a: "radio_ok (sdr ?s)" "timers ?s = [(clock st, Update)]"
    "length (ph_hist ?s) = length (amp_hist ?s)"
    "cur_phase ?s + int n * phase_step cfg \<le> 180"
    "180 < cur_phase ?s + int (Suc n) * phase_step cfg"
    using f assms(2) sweep_count[OF assms(1)] by (simp_all add: n_def)
  from sweep_run[OF assms(1) a] obtain st1 where
    e: "exec cfg (replicate (Suc n) Timeout) ?s = Inr st1" and
    p: "ph_hist st1 = ph_hist ?s @ map (\<lambda>k. cur_phase ?s + int k * phase_step cfg) [0..<Suc n]"
       "cur_phase st1 = cur_phase ?s + int (Suc n) * phase_step cfg"
       "mode st1 = mode ?s" "radio_ok (sdr st1)"
       "if mode ?s = Continuous then \<exists>t'. timers st1 = [(t', StartSweep)] else timers st1 = []"
    by blast
  have ex: "exec cfg (ClickContinuous # replicate (Suc n) Timeout) st = Inr st1"
    using e by (simp add: handle_def)
  have ph: "ph_hist st1 = map (\<lambda>k. - 180 + int k * phase_step cfg) [0..<Suc n]"
    using p(1) f by simp
  have cp: "180 < cur_phase st1" using p(2) a(5) by simp
  from p(5) f obtain t1 where t1: "timers st1 = [(t1, StartSweep)]" by auto
  define st2 where "st2 = start_sweep (st1\<lparr>clock := max (clock st1) t1, timers := []\<rparr>)"
  have h2: "handle cfg Timeout st1 = Inr st2"
    using fire_single_start[OF t1, of cfg] by (simp add: handle_def st2_def)
  have s2: "cur_phase st2 = - 180" "ph_hist st2 = []" "amp_hist st2 = []" "graphics st2 = None"
    "mode st2 = Continuous" "timers st2 = [(max (clock st1) t1, Update)]" "radio_ok (sdr st2)"
    using p(3,4) f by (simp_all add: st2_def start_sweep_def singleShot_def)
  let ?u = "st2\<lparr>clock := max (clock st2) (max (clock st1) t1), timers := []\<rparr>"
  have ok: "radio_ok (sdr ?u)" and len: "length (ph_hist ?u) = length (amp_hist ?u)"
    using s2 by simp_all
  have "\<exists>st3. update cfg ?u = Inr st3 \<and> ph_hist st3 = ph_hist ?u @ [cur_phase ?u] \<and>
           length (amp_hist st3) = Suc (length (amp_hist ?u))"
  proof (cases "cur_phase ?u + phase_step cfg \<le> 180")
    case True
    from update_continue[OF ok True] show ?thesis by blast
  next
    case False
    then have "180 < cur_phase ?u + phase_step cfg" by simp
    from update_finish[OF ok this len] show ?thesis by blast
  qed
  then obtain st3 where u: "update cfg ?u = Inr st3"
    and q: "ph_hist st3 = [- 180]" "length (amp_hist st3) = 1"
    using s2 by auto
  have h3: "handle cfg Timeout st2 = Inr st3"
    using fire_single_update[OF s2(6), of cfg] u by (simp add: handle_def)
  from ex cp ph t1 h2 s2 h3 q show ?thesis unfolding n_def by blast
qed

theorem continuous_restart_clears_witness:
  "\<exists>st1 st2 st3.
           exec default_config (ClickContinuous # replicate 181 Timeout)
             (initial_state steady_radio) = Inr st1 \<and>
           180 < cur_phase st1 \<and>
           ph_hist st1 = map (\<lambda>k. - 180 + int k * 2) [0..<181] \<and>
           (\<exists>t. timers st1 = [(t, StartSweep)]) \<and>
           handle default_config Timeout st1 = Inr st2 \<and>
           cur_phase st2 = - 180 \<and> ph_hist st2 = [] \<and> amp_hist st2 = [] \<and>
           graphics st2 = None \<and> mode st2 = Continuous \<and>
           (\<exists>t. timers st2 = [(t, Update)]) \<and>
           handle default_config Timeout st2 = Inr st3 \<and>
           ph_hist st3 = [- 180] \<and> length (amp_hist st3) = 1"
proof -
  have ps: "phase_step default_config = 2" by (simp add: default_config_def)
  have n: "Suc (nat (360 div (2::int))) = 181" by simp
  have h1: "0 < phase_step default_config" by (simp add: ps)
  have h2: "radio_ok (sdr (initial_state steady_radio))"
    by (simp add: radio_ok_def initial_state_def steady_radio_def)
  have h3: "timers (initial_state steady_radio) = []" by (simp add: initial_state_def)
  from continuous_restart_clears[OF h1 h2 h3, unfolded ps n] show ?thesis .
qed

lemma update_InrD:
  assumes "update cfg st = Inr st'"
  shows "ph_hist st' = ph_hist st @ [cur_phase st]"
    "\<exists>a. amp_hist st' = amp_hist st @ [a]"
    "tx_buffer (sdr st') = Some [base_waveform cfg,
        map (\<lambda>z. z * cis (deg2rad (of_int (cur_phase st)))) (base_waveform cfg)]"
proof -
  define bufs where "bufs = [base_waveform cfg,
     map (\<lambda>z. z * cis (deg2rad (of_int (cur_phase st)))) (base_waveform cfg)]"
  define r1 where "r1 = (sdr st)\<lparr>tx_buffer := Some bufs, tx_calls := Suc (tx_calls (sdr st))\<rparr>"
  have txok: "\<not> tx_fails (sdr st) (tx_calls (sdr st))"
  proof
    assume "tx_fails (sdr st) (tx_calls (sdr st))"
    then have "\<exists>e. update cfg st = Inl e"
      by (simp add: update_def tx_def tx_destroy_buffer_def Let_def)
    with assms show False by auto
  qed
  then have t: "tx bufs (tx_destroy_buffer (sdr st)) = Inr r1"
    by (simp add: tx_def tx_destroy_buffer_def r1_def Let_def)
  have u: "update cfg st =
     (case capture r1 of
        Inl (e, r) \<Rightarrow> Inl (e, st\<lparr>sdr := r\<rparr>)
      | Inr (samples, r2) \<Rightarrow>
          if samples = [] then Inl (ValueError, st\<lparr>sdr := r2\<rparr>)
          else
            let sp = analyze cfg samples;
                st1 = st\<lparr>sdr := r2,
                         ph_hist := ph_hist st @ [cur_phase st],
                         amp_hist := amp_hist st @ [20 * log 10 (pwr_lin sp)]\<rparr>;
                st2 = st1\<lparr>cur_phase := cur_phase st1 + phase_step cfg\<rparr>
            in if 180 < cur_phase st2 then
                 (case annotate_results cfg st2 of
                    Inl e \<Rightarrow> Inl e
                  | Inr st3 \<Rightarrow>
                      Inr (if mode st3 = Continuous
                           then singleShot (update_interval cfg) StartSweep st3
                           else st3))
               else Inr (singleShot (update_interval cfg) Update st2))"
    unfolding update_def Let_def bufs_def[symmetric] t by simp
  from u assms obtain samples r2 where c: "capture r1 = Inr (samples, r2)"
    by (cases "capture r1") auto
  from capture_InrD[OF c] have r2: "r2 = r1\<lparr>rx_calls := rx_calls r1 + 22\<rparr>" .
  from u c assms have sne: "samples \<noteq> []" by (auto split: if_splits)
  define st2 where "st2 = st\<lparr>sdr := r2, ph_hist := ph_hist st @ [cur_phase st],
     amp_hist := amp_hist st @ [20 * log 10 (pwr_lin (analyze cfg samples))],
     cur_phase := cur_phase st + phase_step cfg\<rparr>"
  have u2: "update cfg st =
     (if 180 < cur_phase st + phase_step cfg then
        (case annotate_results cfg st2 of
           Inl e \<Rightarrow> Inl e
         | Inr st3 \<Rightarrow>
             Inr (if mode st3 = Continuous
                  then singleShot (update_interval cfg) StartSweep st3 else st3))
      else Inr (singleShot (update_interval cfg) Update st2))"
    unfolding u by (simp add: c sne st2_def Let_def)
  have "\<exists>g tm. st' = st2\<lparr>graphics := g, timers := tm\<rparr>"
  proof (cases "180 < cur_phase st + phase_step cfg")
    case True
    with u2 assms obtain st3 where a: "annotate_results cfg st2 = Inr st3"
      and s: "st' = (if mode st3 = Continuous
                  then singleShot (update_interval cfg) StartSweep st3 else st3)"
      by (cases "annotate_results cfg st2") auto
    from annotate_results_InrD[OF a] obtain g where g: "st3 = st2\<lparr>graphics := g\<rparr>" by blast
    show ?thesis
    proof (cases "mode st3 = Continuous")
      case True
      with s g have "st' = st2\<lparr>graphics := g, timers := timers st3 @ [(clock st3 + update_interval cfg, StartSweep)]\<rparr>"
        by (simp add: singleShot_def)
      then show ?thesis by blast
    next
      case False
      with s g have "st' = st2\<lparr>graphics := g, timers := timers st2\<rparr>" by simp
      then show ?thesis by blast
    qed
  next
    case False
    with u2 assms have "st' = st2\<lparr>graphics := graphics st2,
        timers := timers st2 @ [(clock st2 + update_interval cfg, Update)]\<rparr>"
      by (simp add: singleShot_def)
    then show ?thesis by blast
  qed
  then obtain g tm where s': "st' = st2\<lparr>graphics := g, timers := tm\<rparr>" by blast
  show "ph_hist st' = ph_hist st @ [cur_phase st]" by (simp add: s' st2_def)
  show "\<exists>a. amp_hist st' = amp_hist st @ [a]" by (simp add: s' st2_def)
  show "tx_buffer (sdr st') = Some [base_waveform cfg,
        map (\<lambda>z. z * cis (deg2rad (of_int (cur_phase st)))) (base_waveform cfg)]"
    by (simp add: s' st2_def r2 r1_def bufs_def)
qed

lemma handle_keeps_lengths:
  assumes "handle cfg ev st = Inr st'" "length (ph_hist st) = length (amp_hist st)"
  shows "length (ph_hist st') = length (amp_hist st')"
proof (cases ev)
  case ClickOneShot
  with assms show ?thesis
    by (auto simp: handle_def one_shot_def start_sweep_def singleShot_def)
next
  case ClickContinuous
  with assms show ?thesis
    by (auto simp: handle_def continuous_def start_sweep_def singleShot_def)
next
  case Timeout
  with assms have f: "fire cfg st = Inr st'" by (simp add: handle_def)
  show ?thesis
  proof (cases "timers st = []")
    case True
    with f assms(2) show ?thesis by (auto simp: fire_def)
  next
    case False
    let ?t = "due_first (timers st)"
    let ?s = "st\<lparr>clock := max (clock st) (fst ?t), timers := remove1 ?t (timers st)\<rparr>"
    show ?thesis
    proof (cases "snd ?t")
      case Update
      with f False have "update cfg ?s = Inr st'" by (simp add: fire_def Let_def)
      from update_InrD(1,2)[OF this] assms(2) show ?thesis by auto
    next
      case StartSweep
      with f False have "st' = start_sweep ?s" by (simp add: fire_def Let_def)
      then show ?thesis by (simp add: start_sweep_def singleShot_def)
    qed
  qed
qed

lemma exec_keeps_lengths:
  "exec cfg evs st = Inr st' \<Longrightarrow> length (ph_hist st) = length (amp_hist st) \<Longrightarrow>
     length (ph_hist st') = length (amp_hist st')"
proof (induction evs arbitrary: st)
  case Nil
  then show ?case by simp
next
  case (Cons ev evs)
  from Cons.prems(1) obtain st1 where h: "handle cfg ev st = Inr st1"
    and e: "exec cfg evs st1 = Inr st'"
    by (cases "handle cfg ev st") auto
  from handle_keeps_lengths[OF h Cons.prems(2)] Cons.IH[OF e] show ?case by blast
qed

text \<open>
  C9. A step that completes appends exactly one phase and exactly one power, and the phase
  it appends is the one by which the second transmit buffer of that step is rotated. In
  every state reached from the start of \<open>main\<close> by button clicks and timers, the two
  histories have the same length.
\<close>

theorem step_records_commanded_phase:
  "(update cfg st = Inr st' \<longrightarrow>
      ph_hist st' = ph_hist st @ [cur_phase st] \<and>
      (\<exists>a. amp_hist st' = amp_hist st @ [a]) \<and>
      tx_buffer (sdr st') = Some [base_waveform cfg,
        map (\<lambda>z. z * cis (deg2rad (of_int (last (ph_hist st'))))) (base_waveform cfg)]) \<and>
   (main_init cfg r = Inr s0 \<and> exec cfg evs s0 = Inr s \<longrightarrow>
      length (ph_hist s) = length (amp_hist s))"
proof (intro conjI impI)
  assume u: "update cfg st = Inr st'"
  note D = update_InrD[OF u]
  show "ph_hist st' = ph_hist st @ [cur_phase st]" by (rule D(1))
  show "\<exists>a. amp_hist st' = amp_hist st @ [a]" by (rule D(2))
  show "tx_buffer (sdr st') = Some [base_waveform cfg,
        map (\<lambda>z. z * cis (deg2rad (of_int (last (ph_hist st'))))) (base_waveform cfg)]"
    using D(1,3) by simp
next
  assume a: "main_init cfg r = Inr s0 \<and> exec cfg evs s0 = Inr s"
  then have "length (ph_hist s0) = length (amp_hist s0)"
    by (auto simp: main_init_def initial_state_def split: sum.splits)
  with a exec_keeps_lengths show "length (ph_hist s) = length (amp_hist s)" by blast
qed

theorem step_records_commanded_phase_witness:
  "(\<exists>st'. update default_config (initial_state steady_radio) = Inr st' \<and>
      ph_hist st' = [- 180] \<and> (\<exists>a. amp_hist st' = [a]) \<and>
      tx_buffer (sdr st') = Some [base_waveform default_config,
        map (\<lambda>z. z * cis (deg2rad (of_int (- 180)))) (base_waveform default_config)]) \<and>
   (\<exists>s0 s. main_init default_config steady_radio = Inr s0 \<and>
      exec default_config [ClickOneShot, Timeout] s0 = Inr s \<and>
      length (ph_hist s) = length (amp_hist s))"
proof
  have ok: "radio_ok (sdr (initial_state steady_radio))"
    by (simp add: radio_ok_def initial_state_def steady_radio_def)
  have "cur_phase (initial_state steady_radio) + phase_step default_config \<le> 180"
    by (simp add: initial_state_def default_config_def)
  from update_continue[OF ok this] obtain st' where
    u: "update default_config (initial_state steady_radio) = Inr st'" by blast
  from step_records_commanded_phase[of default_config "initial_state steady_radio" st'] u
  have "ph_hist st' = ph_hist (initial_state steady_radio) @ [cur_phase (initial_state steady_radio)] \<and>
      (\<exists>a. amp_hist st' = amp_hist (initial_state steady_radio) @ [a]) \<and>
      tx_buffer (sdr st') = Some [base_waveform default_config,
        map (\<lambda>z. z * cis (deg2rad (of_int (last (ph_hist st'))))) (base_waveform default_config)]"
    by blast
  then have "ph_hist st' = [- 180] \<and> (\<exists>a. amp_hist st' = [a]) \<and>
      tx_buffer (sdr st') = Some [base_waveform default_config,
        map (\<lambda>z. z * cis (deg2rad (of_int (- 180)))) (base_waveform default_config)]"
    by (simp add: initial_state_def)
  with u show "\<exists>st'. update default_config (initial_state steady_radio) = Inr st' \<and>
      ph_hist st' = [- 180] \<and> (\<exists>a. amp_hist st' = [a]) \<and>
      tx_buffer (sdr st') = Some [base_waveform default_config,
        map (\<lambda>z. z * cis (deg2rad (of_int (- 180)))) (base_waveform default_config)]"
    by blast
next
  define s0 where "s0 = initial_state (steady_radio\<lparr>tx_calls := Suc 0,
      tx_buffer := Some [base_waveform default_config, base_waveform default_config]\<rparr>)"
  have m: "main_init default_config steady_radio = Inr s0"
    by (simp add: main_init_def tx_def steady_radio_def s0_def Let_def)
  have ok: "radio_ok (sdr (one_shot s0))"
    by (simp add: radio_ok_def initial_state_def steady_radio_def s0_def one_shot_def
        start_sweep_def singleShot_def)
  have tm: "timers (one_shot s0) = [(0, Update)]"
    by (simp add: initial_state_def s0_def one_shot_def start_sweep_def singleShot_def)
  let ?u = "(one_shot s0)\<lparr>clock := max (clock (one_shot s0)) 0, timers := []\<rparr>"
  have ok': "radio_ok (sdr ?u)" using ok by simp
  have "cur_phase ?u + phase_step default_config \<le> 180"
    by (simp add: initial_state_def default_config_def s0_def one_shot_def start_sweep_def
        singleShot_def)
  from update_continue[OF ok' this] obtain s where u: "update default_config ?u = Inr s" by blast
  have e: "exec default_config [ClickOneShot, Timeout] s0 = Inr s"
    using fire_single_update[OF tm, of default_config] u by (simp add: handle_def)
  from step_records_commanded_phase[of default_config "initial_state steady_radio" s
      steady_radio s0 "[ClickOneShot, Timeout]" s] m e
  have "length (ph_hist s) = length (amp_hist s)" by blast
  with m e show "\<exists>s0 s. main_init default_config steady_radio = Inr s0 \<and>
      exec default_config [ClickOneShot, Timeout] s0 = Inr s \<and>
      length (ph_hist s) = length (amp_hist s)" by blast
qed

lemma update_fail:
  assumes "step_radio_fails (sdr st)"
  shows "\<exists>r. update cfg st = Inl (RadioError, st\<lparr>sdr := r\<rparr>)"
proof (cases "tx_fails (sdr st) (tx_calls (sdr st))")
  case True
  then have "update cfg st = Inl (RadioError, st\<lparr>sdr :=
      (sdr st)\<lparr>tx_buffer := None, tx_calls := Suc (tx_calls (sdr st))\<rparr>\<rparr>)"
    by (simp add: update_def tx_def tx_destroy_buffer_def Let_def)
  then show ?thesis by blast
next
  case False
  define bufs where "bufs = [base_waveform cfg,
     map (\<lambda>z. z * cis (deg2rad (of_int (cur_phase st)))) (base_waveform cfg)]"
  define r1 where "r1 = (sdr st)\<lparr>tx_buffer := Some bufs, tx_calls := Suc (tx_calls (sdr st))\<rparr>"
  from False have t: "tx bufs (tx_destroy_buffer (sdr st)) = Inr r1"
    by (simp add: tx_def tx_destroy_buffer_def r1_def Let_def)
  from assms False have "\<exists>k<22. rx_feed r1 (rx_calls r1 + k) = None"
    by (simp add: step_radio_fails_def r1_def)
  from capture_fail[OF this] obtain r' where c: "capture r1 = Inl (RadioError, r')" by blast
  have "update cfg st = Inl (RadioError, st\<lparr>sdr := r'\<rparr>)"
    unfolding update_def Let_def bufs_def[symmetric] t by (simp add: c)
  then show ?thesis by blast
qed

lemma capture_fail_first:
  assumes "rx_feed r (rx_calls r) = None"
  shows "capture r = Inl (RadioError, r\<lparr>rx_calls := Suc (rx_calls r)\<rparr>)"
proof -
  have "flush (Suc 19) r = Inl (RadioError, r\<lparr>rx_calls := Suc (rx_calls r)\<rparr>)"
    by (simp only: flush.simps rx_None[OF assms] sum.case)
  then have "flush 20 r = Inl (RadioError, r\<lparr>rx_calls := Suc (rx_calls r)\<rparr>)"
    by simp
  then show ?thesis by (simp add: capture_def)
qed

lemma update_fail_first:
  assumes "\<not> tx_fails (sdr st) (tx_calls (sdr st))"
    "rx_feed (sdr st) (rx_calls (sdr st)) = None"
  shows "update cfg st =
     Inl (RadioError,
          st\<lparr>sdr := (sdr st)\<lparr>tx_buffer := Some [base_waveform cfg,
                   map (\<lambda>z. z * cis (deg2rad (of_int (cur_phase st)))) (base_waveform cfg)],
                 tx_calls := Suc (tx_calls (sdr st)),
                 rx_calls := Suc (rx_calls (sdr st))\<rparr>\<rparr>)"
proof -
  define bufs where "bufs = [base_waveform cfg,
     map (\<lambda>z. z * cis (deg2rad (of_int (cur_phase st)))) (base_waveform cfg)]"
  define r1 where "r1 = (sdr st)\<lparr>tx_buffer := Some bufs, tx_calls := Suc (tx_calls (sdr st))\<rparr>"
  from assms(1) have t: "tx bufs (tx_destroy_buffer (sdr st)) = Inr r1"
    by (simp add: tx_def tx_destroy_buffer_def r1_def Let_def)
  have "rx_feed r1 (rx_calls r1) = None" using assms(2) by (simp add: r1_def)
  from capture_fail_first[OF this]
  have c: "capture r1 = Inl (RadioError, r1\<lparr>rx_calls := Suc (rx_calls r1)\<rparr>)" .
  have "update cfg st = Inl (RadioError, st\<lparr>sdr := r1\<lparr>rx_calls := Suc (rx_calls r1)\<rparr>\<rparr>)"
    unfolding update_def Let_def bufs_def[symmetric] t by (simp add: c)
  then show ?thesis by (simp add: r1_def bufs_def)
qed

text \<open>
  C3 as stated fails. The source has no idle state and cancels no timer. Press One Shot
  twice before the first timer fires, with a receiver that fails on its first call only:
  the first step ends with the exception, and the state it leaves behind still has the
  step of the other press pending. When that timer fires, the step succeeds and records
  \<open>-180\<close>: the sweep goes on after the failure.
\<close>

theorem radio_failure_not_idle_counterexample:
  "isl (exec default_config [ClickOneShot, ClickOneShot, Timeout] (initial_state flaky_radio)) \<and>
   fst (projl (exec default_config [ClickOneShot, ClickOneShot, Timeout]
                 (initial_state flaky_radio))) = RadioError \<and>
   timers (snd (projl (exec default_config [ClickOneShot, ClickOneShot, Timeout]
                 (initial_state flaky_radio)))) = [(0, Update)] \<and>
   \<not> isl (handle default_config Timeout
            (snd (projl (exec default_config [ClickOneShot, ClickOneShot, Timeout]
                 (initial_state flaky_radio))))) \<and>
   ph_hist (projr (handle default_config Timeout
            (snd (projl (exec default_config [ClickOneShot, ClickOneShot, Timeout]
                 (initial_state flaky_radio)))))) = [- 180]"
proof -
  define cfg where "cfg = default_config"
  have ps: "phase_step cfg = 2" by (simp add: cfg_def default_config_def)
  define s2 where "s2 = one_shot (one_shot (initial_state flaky_radio))"
  have s2: "timers s2 = [(0, Update), (0, Update)]" "sdr s2 = flaky_radio"
    "cur_phase s2 = - 180" "ph_hist s2 = []" "amp_hist s2 = []" "clock s2 = 0"
    by (simp_all add: s2_def one_shot_def start_sweep_def singleShot_def initial_state_def)
  define u where "u = s2\<lparr>clock := 0, timers := [(0, Update)]\<rparr>"
  have f: "fire cfg s2 = update cfg u"
    by (simp add: fire_def Let_def s2 u_def)
  define r where "r = flaky_radio\<lparr>tx_buffer := Some [base_waveform cfg,
                   map (\<lambda>z. z * cis (deg2rad (of_int (- 180)))) (base_waveform cfg)],
                 tx_calls := Suc 0, rx_calls := Suc 0\<rparr>"
  define s3 where "s3 = u\<lparr>sdr := r\<rparr>"
  have "\<not> tx_fails (sdr u) (tx_calls (sdr u))" "rx_feed (sdr u) (rx_calls (sdr u)) = None"
    by (simp_all add: u_def s2 flaky_radio_def)
  from update_fail_first[OF this, of cfg]
  have up: "update cfg u = Inl (RadioError, s3)"
    by (simp add: s3_def r_def u_def s2 flaky_radio_def)
  have e: "exec cfg [ClickOneShot, ClickOneShot, Timeout] (initial_state flaky_radio)
             = Inl (RadioError, s3)"
    using f up by (simp add: handle_def s2_def)
  have s3: "timers s3 = [(0, Update)]" "cur_phase s3 = - 180" "ph_hist s3 = []"
    by (simp_all add: s3_def u_def s2)
  let ?v = "s3\<lparr>clock := max (clock s3) 0, timers := []\<rparr>"
  have ok: "\<not> tx_fails (sdr ?v) (tx_calls (sdr ?v))"
    "\<forall>k<22. rx_feed (sdr ?v) (rx_calls (sdr ?v) + k) \<noteq> None"
    "the (rx_feed (sdr ?v) (rx_calls (sdr ?v) + 20)) \<noteq> []"
    by (simp_all add: s3_def r_def flaky_radio_def)
  from update_ok[OF ok, of cfg] obtain st2 where
    p: "ph_hist st2 = ph_hist ?v @ [cur_phase ?v]" and
    q: "update cfg ?v =
             (if 180 < cur_phase ?v + phase_step cfg then
                (case annotate_results cfg st2 of
                   Inl e \<Rightarrow> Inl e
                 | Inr st3 \<Rightarrow>
                     Inr (if mode st3 = Continuous
                          then singleShot (update_interval cfg) StartSweep st3 else st3))
              else Inr (singleShot (update_interval cfg) Update st2))"
    by blast
  from q have "update cfg ?v = Inr (singleShot (update_interval cfg) Update st2)"
    by (simp add: s3 ps)
  with fire_single_update[OF s3(1), of cfg]
  have h: "handle cfg Timeout s3 = Inr (singleShot (update_interval cfg) Update st2)"
    by (simp add: handle_def)
  have "ph_hist (singleShot (update_interval cfg) Update st2) = [- 180]"
    using p by (simp add: singleShot_def s3)
  with e h s3(1) show ?thesis unfolding cfg_def[symmetric] by simp
qed

text \<open>
  C3, amended. If the transmit call or one of the receive calls of a step raises,
  \<open>update\<close> ends with that exception, which reaches the caller of the timer callback: no
  phase and no power is recorded, the phase is not advanced, the graphics and the mode are
  untouched, and the failed step sets no timer. The timers that were pending besides the
  one that fired stay pending; when the failed step was the only one, none is left.
\<close>

theorem radio_failure_aborts_step:
  assumes "step_radio_fails (sdr st)"
  shows "(\<exists>st'. update cfg st = Inl (RadioError, st') \<and>
            ph_hist st' = ph_hist st \<and> amp_hist st' = amp_hist st \<and>
            cur_phase st' = cur_phase st \<and> graphics st' = graphics st \<and>
            mode st' = mode st \<and> timers st' = timers st) \<and>
         (timers st \<noteq> [] \<and> snd (due_first (timers st)) = Update \<longrightarrow>
            (\<exists>st'. fire cfg st = Inl (RadioError, st') \<and>
               ph_hist st' = ph_hist st \<and> amp_hist st' = amp_hist st \<and>
               cur_phase st' = cur_phase st \<and> graphics st' = graphics st \<and>
               mode st' = mode st \<and>
               timers st' = remove1 (due_first (timers st)) (timers st)))"
proof (intro conjI impI)
  from update_fail[OF assms, of cfg] obtain r where
    "update cfg st = Inl (RadioError, st\<lparr>sdr := r\<rparr>)" by blast
  then show "\<exists>st'. update cfg st = Inl (RadioError, st') \<and>
            ph_hist st' = ph_hist st \<and> amp_hist st' = amp_hist st \<and>
            cur_phase st' = cur_phase st \<and> graphics st' = graphics st \<and>
            mode st' = mode st \<and> timers st' = timers st"
    by simp
next
  assume tm: "timers st \<noteq> [] \<and> snd (due_first (timers st)) = Update"
  let ?s = "st\<lparr>clock := max (clock st) (fst (due_first (timers st))),
                 timers := remove1 (due_first (timers st)) (timers st)\<rparr>"
  have "step_radio_fails (sdr ?s)" using assms by simp
  from update_fail[OF this, of cfg] obtain r where
    u: "update cfg ?s = Inl (RadioError, ?s\<lparr>sdr := r\<rparr>)" by blast
  from tm have "fire cfg st = update cfg ?s" by (simp add: fire_update)
  with u have "fire cfg st = Inl (RadioError, ?s\<lparr>sdr := r\<rparr>)" by simp
  then show "\<exists>st'. fire cfg st = Inl (RadioError, st') \<and>
               ph_hist st' = ph_hist st \<and> amp_hist st' = amp_hist st \<and>
               cur_phase st' = cur_phase st \<and> graphics st' = graphics st \<and>
               mode st' = mode st \<and>
               timers st' = remove1 (due_first (timers st)) (timers st)"
    by simp
qed

theorem radio_failure_aborts_step_witness:
  "(\<exists>st'. update default_config (one_shot (initial_state dead_radio)) = Inl (RadioError, st') \<and>
       ph_hist st' = [] \<and> amp_hist st' = [] \<and> cur_phase st' = - 180 \<and>
       timers st' = [(0, Update)]) \<and>
   (\<exists>st'. fire default_config (one_shot (initial_state dead_radio)) = Inl (RadioError, st') \<and>
       ph_hist st' = [] \<and> amp_hist st' = [] \<and> cur_phase st' = - 180 \<and> timers st' = [])"
proof -
  let ?s = "one_shot (initial_state dead_radio)"
  have f: "step_radio_fails (sdr ?s)"
    unfolding step_radio_fails_def
    by (rule disjI2, rule exI[of _ 0])
       (simp add: one_shot_def start_sweep_def singleShot_def initial_state_def dead_radio_def)
  have tm: "timers ?s = [(0, Update)]"
    by (simp add: one_shot_def start_sweep_def singleShot_def initial_state_def)
  have v: "ph_hist ?s = []" "amp_hist ?s = []" "cur_phase ?s = - 180"
    by (simp_all add: one_shot_def start_sweep_def singleShot_def initial_state_def)
  from radio_failure_aborts_step[OF f, of default_config]
  show ?thesis unfolding v tm by auto
qed

end
